theory Spec2Isabelle
  imports Main
begin

section \<open>Exceptions\<close>

text \<open>
  The exceptions of \<^verbatim>\<open>state_machine.py\<close> as values. \<open>IllegalTransition\<close> carries the
  tuple the source passes to it; \<open>Raised\<close> is an exception of foreign code (the
  \<^verbatim>\<open>save\<close> of a superclass); \<open>Escaped\<close> is an exception of a handler that
  \<^verbatim>\<open>call_handlers\<close> does not catch.
\<close>

datatype error =
    KeyError
  | ValueError
  | AttributeError
  | ImproperlyConfigured string

datatype ('a, 'x) exn =
    Error error
  | IllegalTransition 'a
  | Raised 'x
  | Escaped 'x

text \<open>
  What a handler raises: an instance of \<^verbatim>\<open>Exception\<close>, or an instance of
  \<^verbatim>\<open>BaseException\<close> that is no \<^verbatim>\<open>Exception\<close> (\<^verbatim>\<open>SystemExit\<close>, \<^verbatim>\<open>KeyboardInterrupt\<close>,
  \<^verbatim>\<open>GeneratorExit\<close>). \<^verbatim>\<open>except Exception\<close> catches the first kind only.
\<close>

datatype 'x thrown = Exception 'x | BaseException 'x

section \<open>State\<close>

text \<open>
  \<^verbatim>\<open>State(code, label=None, *, is_initial=None, is_terminal=None)\<close>. A state code is
  any Python object except \<^verbatim>\<open>None\<close>, here a value of the type \<open>'c\<close>.
\<close>

record 'c state =
  code :: 'c
  label :: "string option"
  is_initial :: "bool option"
  is_terminal :: "bool option"

definition State :: "'c \<Rightarrow> 'c state" where
  "State c = \<lparr>code = c, label = None, is_initial = None, is_terminal = None\<rparr>"

text \<open>
  What stands on the other side of a comparison: a bare code, or a \<open>State\<close>
  instance (the \<^verbatim>\<open>isinstance(other, State)\<close> test of \<^verbatim>\<open>__eq__\<close>).
\<close>

datatype 'c pyobj = Bare 'c | Inst "'c state"

definition State_eq :: "'c state \<Rightarrow> 'c pyobj \<Rightarrow> bool" where
  "State_eq self other =
     (case other of Inst s \<Rightarrow> code self = code s | Bare c \<Rightarrow> code self = c)"

definition State_ne :: "'c state \<Rightarrow> 'c pyobj \<Rightarrow> bool" where
  "State_ne self other = (\<not> State_eq self other)"

text \<open>\<^verbatim>\<open>__hash__\<close>: the hash of the code, for whatever hash the codes have.\<close>

definition State_hash :: "('c \<Rightarrow> int) \<Rightarrow> 'c state \<Rightarrow> int" where
  "State_hash hash self = hash (code self)"

text \<open>
  The operator \<^verbatim>\<open>==\<close>: the left operand's \<^verbatim>\<open>__eq__\<close>; a bare code on the left does
  not know \<open>State\<close>, so Python turns to the reflected \<^verbatim>\<open>State.__eq__\<close>.
\<close>

fun py_eq :: "'c pyobj \<Rightarrow> 'c pyobj \<Rightarrow> bool" where
  "py_eq (Inst s) other = State_eq s other"
| "py_eq (Bare c) (Inst s) = State_eq s (Bare c)"
| "py_eq (Bare c) (Bare d) = (c = d)"

subsection \<open>Merging the data of two declarations\<close>

text \<open>
  One round of the loop of \<^verbatim>\<open>merge_data\<close> over an attribute: \<open>None\<close> is the
  \<^verbatim>\<open>raise ImproperlyConfigured\<close>, \<open>Some v\<close> the value the attribute has afterwards.
\<close>

definition merge_attr :: "'a option \<Rightarrow> 'a option \<Rightarrow> 'a option option" where
  "merge_attr mine theirs =
     (if mine \<noteq> theirs \<and> theirs \<noteq> None
      then (if mine = None then Some theirs else None)
      else Some mine)"

text \<open>
  \<^verbatim>\<open>merge_data\<close> mutates \<open>self\<close> attribute by attribute, so the result is the
  exception (if any) together with \<open>self\<close> as the call leaves it.
\<close>

definition merge_data :: "'c state \<Rightarrow> 'c state \<Rightarrow> error option \<times> 'c state" where
  "merge_data self other =
     (if State_ne self (Inst other) then (Some ValueError, self)
      else case merge_attr (label self) (label other) of
        None \<Rightarrow> (Some (ImproperlyConfigured ''label''), self)
      | Some l \<Rightarrow>
          let s1 = self\<lparr>label := l\<rparr> in
          (case merge_attr (is_initial s1) (is_initial other) of
            None \<Rightarrow> (Some (ImproperlyConfigured ''is_initial''), s1)
          | Some i \<Rightarrow>
              let s2 = s1\<lparr>is_initial := i\<rparr> in
              (case merge_attr (is_terminal s2) (is_terminal other) of
                None \<Rightarrow> (Some (ImproperlyConfigured ''is_terminal''), s2)
              | Some t \<Rightarrow> (None, s2\<lparr>is_terminal := t\<rparr>))))"

text \<open>The words of the specification: a true conflict, and the value that wins.\<close>

definition conflicting :: "'a option \<Rightarrow> 'a option \<Rightarrow> bool" where
  "conflicting x y = (x \<noteq> None \<and> y \<noteq> None \<and> x \<noteq> y)"

definition non_null :: "'a option \<Rightarrow> 'a option \<Rightarrow> 'a option" where
  "non_null x y = (case x of None \<Rightarrow> y | Some v \<Rightarrow> Some v)"

definition merged :: "'c state \<Rightarrow> 'c state \<Rightarrow> 'c state" where
  "merged self other =
     self\<lparr>label := non_null (label self) (label other),
          is_initial := non_null (is_initial self) (is_initial other),
          is_terminal := non_null (is_terminal self) (is_terminal other)\<rparr>"

definition conflict :: "'c state \<Rightarrow> 'c state \<Rightarrow> bool" where
  "conflict self other =
     (conflicting (label self) (label other) \<or>
      conflicting (is_initial self) (is_initial other) \<or>
      conflicting (is_terminal self) (is_terminal other))"

section \<open>State instances as objects\<close>

text \<open>
  The table of states holds the very \<open>State\<close> instances written in
  \<^verbatim>\<open>transitions\<close>, and \<^verbatim>\<open>merge_data\<close> and the marking of initial and terminal states
  assign to their attributes. So instances live in a store, by address, and a value
  written where a state is expected is a bare code or a reference to an instance.
\<close>

type_synonym addr = nat

datatype 'c pyval = Code 'c | Ref addr

type_synonym 'c store = "'c state list"

definition deref :: "'c store \<Rightarrow> 'c pyval \<Rightarrow> 'c pyobj" where
  "deref st v = (case v of Code c \<Rightarrow> Bare c | Ref a \<Rightarrow> Inst (st ! a))"

definition code_of :: "'c store \<Rightarrow> 'c pyval \<Rightarrow> 'c" where
  "code_of st v = (case v of Code c \<Rightarrow> c | Ref a \<Rightarrow> code (st ! a))"

text \<open>
  \<^verbatim>\<open>transitions\<close>: a dict from states to dicts from symbols to states, in the order
  of its items. A symbol is any Python object, \<^verbatim>\<open>None\<close> included: a value of \<open>'s\<close>.
\<close>

type_synonym ('c, 's) spec = "('c pyval \<times> ('s \<times> 'c pyval) list) list"

text \<open>
  Looking a state up in a dict keyed by states: the hash is the code's and the stored
  key is compared with \<^verbatim>\<open>==\<close>.
\<close>

definition dict_get :: "'c store \<Rightarrow> ('c pyval \<times> 'v) list \<Rightarrow> 'c pyval \<Rightarrow> 'v option" where
  "dict_get st d k =
     map_option snd (find (\<lambda>kv. py_eq (deref st (fst kv)) (deref st k)) d)"

text \<open>\<^verbatim>\<open>_states\<close>: a dict from bare codes to instances, in insertion order.\<close>

type_synonym 'c table = "('c \<times> addr) list"

definition table_get :: "'c store \<Rightarrow> 'c table \<Rightarrow> 'c pyval \<Rightarrow> addr option" where
  "table_get st tbl v =
     map_option snd (find (\<lambda>kv. py_eq (Bare (fst kv)) (deref st v)) tbl)"

text \<open>Python sets of states: membership, \<^verbatim>\<open>set(...)\<close> and set difference.\<close>

definition py_member :: "'c store \<Rightarrow> 'c pyval \<Rightarrow> 'c pyval list \<Rightarrow> bool" where
  "py_member st v xs = list_ex (\<lambda>w. py_eq (deref st w) (deref st v)) xs"

definition py_set :: "'c store \<Rightarrow> 'c pyval list \<Rightarrow> 'c pyval list" where
  "py_set st xs = fold (\<lambda>v acc. if py_member st v acc then acc else acc @ [v]) xs []"

definition py_set_minus :: "'c store \<Rightarrow> 'c pyval list \<Rightarrow> 'c pyval list \<Rightarrow> 'c pyval list" where
  "py_set_minus st xs ys = filter (\<lambda>v. \<not> py_member st v ys) xs"

section \<open>The table of states\<close>

definition right_side :: "('c, 's) spec \<Rightarrow> 'c pyval list" where
  "right_side tr = concat (map (\<lambda>(k, ts). map snd ts) tr)"

text \<open>\<^verbatim>\<open>if not isinstance(state, State): state = State(state)\<close> makes a new instance.\<close>

fun wrap :: "'c store \<Rightarrow> 'c pyval \<Rightarrow> addr \<times> 'c store" where
  "wrap st (Ref a) = (a, st)"
| "wrap st (Code c) = (length st, st @ [State c])"

text \<open>
  The body of the loop that gathers the most complete information, for one value
  of \<^verbatim>\<open>states\<close>: the exception of \<^verbatim>\<open>merge_data\<close> (if any), the store and the table.
\<close>

definition gather_step :: "'c pyval \<Rightarrow> 'c store \<Rightarrow> 'c table \<Rightarrow> error option \<times> 'c store \<times> 'c table" where
  "gather_step v st tbl =
     (case wrap st v of
        (a, st1) \<Rightarrow>
          (case map_of tbl (code (st1 ! a)) of
             None \<Rightarrow> (None, st1, tbl @ [(code (st1 ! a), a)])
           | Some b \<Rightarrow>
               (case merge_data (st1 ! b) (st1 ! a) of
                  (e, s) \<Rightarrow> (e, st1[b := s], tbl))))"

text \<open>The loop: an exception ends it, and leaves the store and the table as they are then.\<close>

fun gather :: "'c pyval list \<Rightarrow> 'c store \<Rightarrow> 'c table \<Rightarrow> error option \<times> 'c store \<times> 'c table" where
  "gather [] st tbl = (None, st, tbl)"
| "gather (v # vs) st tbl =
     (case gather_step v st tbl of
        (Some e, st1, tbl1) \<Rightarrow> (Some e, st1, tbl1)
      | (None, st1, tbl1) \<Rightarrow> gather vs st1 tbl1)"

definition deduce_initial_states :: "'c store \<Rightarrow> ('c, 's) spec \<Rightarrow> 'c pyval list" where
  "deduce_initial_states st tr =
     py_set_minus st (py_set st (map fst tr)) (py_set st (right_side tr))"

definition deduce_terminal_states :: "'c store \<Rightarrow> ('c, 's) spec \<Rightarrow> 'c pyval list" where
  "deduce_terminal_states st tr =
     py_set_minus st (py_set st (right_side tr)) (py_set st (map fst tr))"

text \<open>
  \<^verbatim>\<open>for state in xs: cls._states[state].attr = True\<close>, for the assignment \<open>f\<close>.
\<close>

fun mark :: "('c state \<Rightarrow> 'c state) \<Rightarrow> 'c table \<Rightarrow> 'c pyval list \<Rightarrow> 'c store \<Rightarrow> error option \<times> 'c store" where
  "mark f tbl [] st = (None, st)"
| "mark f tbl (v # vs) st =
     (case table_get st tbl v of
        None \<Rightarrow> (Some KeyError, st)
      | Some b \<Rightarrow> mark f tbl vs (st[b := f (st ! b)]))"

definition truthy :: "bool option \<Rightarrow> bool" where
  "truthy b = (b = Some True)"

text \<open>
  The body of the property \<^verbatim>\<open>states\<close> under \<^verbatim>\<open>if not cls._states\<close>: the exception (if
  any), the store and \<^verbatim>\<open>cls._states\<close> as the body leaves them.
\<close>

definition states_build :: "('c, 's) spec \<Rightarrow> 'c store \<Rightarrow> error option \<times> 'c store \<times> 'c table" where
  "states_build tr st =
     (case gather (right_side tr @ map fst tr) st [] of
        (Some e, st1, tbl) \<Rightarrow> (Some e, st1, tbl)
      | (None, st1, tbl) \<Rightarrow>
          let initials = map (Ref \<circ> snd) (filter (\<lambda>(c, a). truthy (is_initial (st1 ! a))) tbl);
              terminals = map (Ref \<circ> snd) (filter (\<lambda>(c, a). truthy (is_terminal (st1 ! a))) tbl);
              initials = (if length initials = 0 then deduce_initial_states st1 tr else initials)
          in if length initials \<noteq> 1
             then (Some (ImproperlyConfigured ''Must define exactly 1 initial state.''), st1, tbl)
             else
               let terminals = (if length terminals = 0 then deduce_terminal_states st1 tr
                                else terminals)
               in (case mark (\<lambda>s. s\<lparr>is_initial := Some True\<rparr>) tbl initials st1 of
                     (Some e, st2) \<Rightarrow> (Some e, st2, tbl)
                   | (None, st2) \<Rightarrow>
                       (case mark (\<lambda>s. s\<lparr>is_terminal := Some True\<rparr>) tbl terminals st2 of
                          (e, st3) \<Rightarrow> (e, st3, tbl))))"

text \<open>
  A machine definition, as far as the table goes: the store of instances and
  \<^verbatim>\<open>cls._states\<close> (\<open>None\<close> until the property is first read).
\<close>

record 'c definition_state =
  instances :: "'c store"
  cached_states :: "'c table option"

text \<open>
  The property \<^verbatim>\<open>states\<close>. An empty dict is as false as \<^verbatim>\<open>None\<close>, so an empty table is
  built again; a table left behind by a failed build is not.
\<close>

definition states :: "('c, 's) spec \<Rightarrow> 'c definition_state \<Rightarrow> (error + 'c table) \<times> 'c definition_state" where
  "states tr d =
     (if cached_states d = None \<or> cached_states d = Some []
      then (case states_build tr (instances d) of
              (Some e, st, tbl) \<Rightarrow> (Inl e, \<lparr>instances = st, cached_states = Some tbl\<rparr>)
            | (None, st, tbl) \<Rightarrow> (Inr tbl, \<lparr>instances = st, cached_states = Some tbl\<rparr>))
      else (Inr (the (cached_states d)), d))"

section \<open>Handlers\<close>

text \<open>
  A rule is the tuple \<^verbatim>\<open>(from_state, symbol, to_state)\<close> a handler is registered under;
  each component is the sentinel \<^verbatim>\<open>StateMachine.ANY\<close> or a value. \<^verbatim>\<open>handlers\<close> is a
  \<^verbatim>\<open>defaultdict(set)\<close> from rules to sets of handlers; handlers are named by \<open>'h\<close>.
\<close>

datatype 'a matcher = ANY | Exactly 'a

type_synonym ('c, 's) rule = "'c pyval matcher \<times> 's matcher \<times> 'c pyval matcher"

type_synonym ('c, 's, 'h) registry = "(('c, 's) rule \<times> 'h list) list"

definition state_matcher_eq :: "'c store \<Rightarrow> 'c pyval matcher \<Rightarrow> 'c pyval matcher \<Rightarrow> bool" where
  "state_matcher_eq st p q =
     (case (p, q) of
        (ANY, ANY) \<Rightarrow> True
      | (Exactly v, Exactly w) \<Rightarrow> py_eq (deref st v) (deref st w)
      | _ \<Rightarrow> False)"

text \<open>Equality of two rules as dict keys: tuples compare component by component.\<close>

definition rule_eq :: "'c store \<Rightarrow> ('c, 's) rule \<Rightarrow> ('c, 's) rule \<Rightarrow> bool" where
  "rule_eq st r1 r2 =
     (case (r1, r2) of
        ((f1, s1, t1), (f2, s2, t2)) \<Rightarrow>
          state_matcher_eq st f1 f2 \<and> s1 = s2 \<and> state_matcher_eq st t1 t2)"

text \<open>\<^verbatim>\<open>d[rule] = hs\<close> on a dict of rules: an equal key keeps its place.\<close>

fun registry_set :: "'c store \<Rightarrow> ('c, 's, 'h) registry \<Rightarrow> ('c, 's) rule \<Rightarrow> 'h list \<Rightarrow> ('c, 's, 'h) registry" where
  "registry_set st [] r hs = [(r, hs)]"
| "registry_set st ((r', hs') # d) r hs =
     (if rule_eq st r' r then (r', hs) # d else (r', hs') # registry_set st d r hs)"

definition registry_get :: "'c store \<Rightarrow> ('c, 's, 'h) registry \<Rightarrow> ('c, 's) rule \<Rightarrow> 'h list option" where
  "registry_get st d r = map_option snd (find (\<lambda>kv. rule_eq st (fst kv) r) d)"

text \<open>\<^verbatim>\<open>d.update(other)\<close>.\<close>

definition registry_update :: "'c store \<Rightarrow> ('c, 's, 'h) registry \<Rightarrow> ('c, 's, 'h) registry \<Rightarrow> ('c, 's, 'h) registry" where
  "registry_update st d other = fold (\<lambda>(r, hs) acc. registry_set st acc r hs) other d"

text \<open>
  A class, as far as handlers go: its name, the \<^verbatim>\<open>handlers\<close> entry of its own
  \<^verbatim>\<open>__dict__\<close> (if it has one) and, for a class that is not a state machine but
  "happens to define" \<^verbatim>\<open>get_handlers\<close>, what that method returns. A machine
  definition is given by its method resolution order: the class itself first, then its
  bases up to \<^verbatim>\<open>StateMachine\<close>, then whatever follows \<^verbatim>\<open>StateMachine\<close> (\<^verbatim>\<open>object\<close>, which
  has none of these attributes, is left out).
\<close>

record ('c, 's, 'h) klass =
  cname :: string
  handlers_attr :: "('c, 's, 'h) registry option"
  get_handlers_attr :: "('c, 's, 'h) registry option"

definition class_attr :: "('k \<Rightarrow> 'v option) \<Rightarrow> 'k list \<Rightarrow> 'v option" where
  "class_attr f mro = (case List.map_filter f mro of [] \<Rightarrow> None | v # _ \<Rightarrow> Some v)"

text \<open>
  \<^verbatim>\<open>super()\<close> inside a method of \<^verbatim>\<open>StateMachine\<close> is \<^verbatim>\<open>super(StateMachine, cls)\<close>: it
  searches the classes that follow \<^verbatim>\<open>StateMachine\<close> in the order of \<open>cls\<close>.
\<close>

definition after_StateMachine :: "('c, 's, 'h) klass list \<Rightarrow> ('c, 's, 'h) klass list" where
  "after_StateMachine mro = tl (dropWhile (\<lambda>k. cname k \<noteq> ''StateMachine'') mro)"

definition get_handlers :: "'c store \<Rightarrow> ('c, 's, 'h) klass list \<Rightarrow> error + ('c, 's, 'h) registry" where
  "get_handlers st mro =
     (let handlers =
        (case class_attr get_handlers_attr (after_StateMachine mro) of
           Some inherited \<Rightarrow> inherited
         | None \<Rightarrow> [])
      in case class_attr handlers_attr mro of
           None \<Rightarrow> Inl AttributeError
         | Some cls_handlers \<Rightarrow> Inr (registry_update st handlers cls_handlers))"

text \<open>
  \<^verbatim>\<open>cls.handle(from_state, symbol, to_state)(fun)\<close> on the class named \<open>cls\<close> of a
  hierarchy: the classes of the hierarchy after the registration.
\<close>

definition register :: "'c store \<Rightarrow> ('c, 's) rule \<Rightarrow> 'h \<Rightarrow> ('c, 's, 'h) klass \<Rightarrow> ('c, 's, 'h) klass" where
  "register st r fun k =
     (let own = (case handlers_attr k of None \<Rightarrow> [] | Some d \<Rightarrow> d);
          hs = (case registry_get st own r of None \<Rightarrow> [] | Some hs \<Rightarrow> hs)
      in k\<lparr>handlers_attr := Some (registry_set st own r (if fun \<in> set hs then hs else hs @ [fun]))\<rparr>)"

definition handle :: "'c store \<Rightarrow> string \<Rightarrow> ('c, 's) rule \<Rightarrow> 'h \<Rightarrow> ('c, 's, 'h) klass list \<Rightarrow> ('c, 's, 'h) klass list" where
  "handle st cls r fun classes =
     map (\<lambda>k. if cname k = cls then register st r fun k else k) classes"

text \<open>The order of a class of the hierarchy: the class and what follows it.\<close>

definition mro_of :: "string \<Rightarrow> ('c, 's, 'h) klass list \<Rightarrow> ('c, 's, 'h) klass list" where
  "mro_of cls classes = dropWhile (\<lambda>k. cname k \<noteq> cls) classes"

section \<open>Machines\<close>

text \<open>
  What a call leaves behind besides its result: the calls of the guard, of
  \<^verbatim>\<open>save\<close> (with \<^verbatim>\<open>current_state_code\<close> as it is at that moment), of handlers, and
  the errors logged.
\<close>

datatype ('c, 's, 'h, 'x) event =
    GuardCall "'c pyval option" 's "'c pyval"
  | SaveCall "'c option"
  | HandlerCall 'h "'c pyval option" 's "'c pyval"
  | LogError 'h 'x

record ('c, 's, 'h, 'x) machine =
  current_state_code :: "'c option"
  trace :: "('c, 's, 'h, 'x) event list"

text \<open>
  The class of a machine: its \<^verbatim>\<open>transitions\<close>, its order of classes, and the code
  that is not in this module: the guard \<^verbatim>\<open>allow_transition\<close> (by default always
  true), the \<^verbatim>\<open>save\<close> of the classes after \<^verbatim>\<open>StateMachine\<close> (\<open>None\<close> when there is none;
  its result is the exception it raises, if any) and what a handler does when called
  with \<^verbatim>\<open>(self, from_state, symbol, to_state)\<close>: the exception it raises or the value
  it returns. Where a class before \<^verbatim>\<open>StateMachine\<close> in the order has a
  \<^verbatim>\<open>save\<close> (as \<^verbatim>\<open>models.Model\<close> has for \<^verbatim>\<open>StateMachineModel\<close>), \<^verbatim>\<open>self.save()\<close> is that
  method, and \<open>super_save\<close> stands for it. Guard, \<^verbatim>\<open>save\<close> and handlers are taken to
  leave the machine and the instances alone.
\<close>

record ('c, 's, 'h, 'x, 'r) machine_class =
  transitions :: "('c, 's) spec"
  mro :: "('c, 's, 'h) klass list"
  allow_transition :: "'c store \<Rightarrow> 'c pyval option \<Rightarrow> 's \<Rightarrow> 'c pyval \<Rightarrow> bool"
  super_save :: "('c option \<Rightarrow> 'x option) option"
  call :: "'h \<Rightarrow> 'c store \<Rightarrow> 'c option \<Rightarrow> 'c pyval option \<Rightarrow> 's \<Rightarrow> 'c pyval \<Rightarrow> 'x thrown + 'r"

text \<open>
  The getter of \<^verbatim>\<open>current_state\<close>, given the table: the \<^verbatim>\<open>KeyError\<close> of the lookup
  becomes \<^verbatim>\<open>None\<close>. A machine that has no code yet looks \<^verbatim>\<open>None\<close> up, which is no code.
\<close>

definition lookup_code :: "'c table \<Rightarrow> 'c option \<Rightarrow> error + addr" where
  "lookup_code tbl cc =
     (case cc of
        None \<Rightarrow> Inl KeyError
      | Some c \<Rightarrow> (case map_of tbl c of None \<Rightarrow> Inl KeyError | Some a \<Rightarrow> Inr a))"

definition current_state :: "'c table \<Rightarrow> ('c, 's, 'h, 'x) machine \<Rightarrow> 'c pyval option" where
  "current_state tbl m =
     (case lookup_code tbl (current_state_code m) of
        Inr a \<Rightarrow> Some (Ref a)
      | Inl e \<Rightarrow> None)"

text \<open>
  The setter: \<^verbatim>\<open>self.current_state_code = self.states[state].code\<close>. \<^verbatim>\<open>None\<close> (what
  \<^verbatim>\<open>get_initial_state\<close> returns when no state is initial) is no key of the table.
\<close>

definition set_current_state :: "'c store \<Rightarrow> 'c table \<Rightarrow> 'c pyval option \<Rightarrow> ('c, 's, 'h, 'x) machine \<Rightarrow> error + ('c, 's, 'h, 'x) machine" where
  "set_current_state st tbl state m =
     (case state of
        None \<Rightarrow> Inl KeyError
      | Some v \<Rightarrow>
          (case table_get st tbl v of
             None \<Rightarrow> Inl KeyError
           | Some a \<Rightarrow> Inr (m\<lparr>current_state_code := Some (code (st ! a))\<rparr>)))"


definition get_terminals :: "'c store \<Rightarrow> 'c table \<Rightarrow> 'c pyval list" where
  "get_terminals st tbl = map (Ref \<circ> snd) (filter (\<lambda>(c, a). truthy (is_terminal (st ! a))) tbl)"

text \<open>
  \<^verbatim>\<open>get_next\<close>: \<^verbatim>\<open>self.transitions[self.current_state][symbol]\<close>. \<^verbatim>\<open>None\<close> is no state,
  so it is no key of \<^verbatim>\<open>transitions\<close>.
\<close>

definition get_next :: "'c store \<Rightarrow> ('c, 's) spec \<Rightarrow> 'c table \<Rightarrow> 's \<Rightarrow> ('c, 's, 'h, 'x) machine \<Rightarrow> error + 'c pyval" where
  "get_next st tr tbl symbol m =
     (case current_state tbl m of
        None \<Rightarrow> Inl KeyError
      | Some cur \<Rightarrow>
          (case dict_get st tr cur of
             None \<Rightarrow> Inl KeyError
           | Some ts \<Rightarrow> (case map_of ts symbol of None \<Rightarrow> Inl KeyError | Some v \<Rightarrow> Inr v)))"

text \<open>\<^verbatim>\<open>StateMachine.save\<close>: the \<^verbatim>\<open>save\<close> of \<^verbatim>\<open>super()\<close> if it has one.\<close>

definition save :: "('c option \<Rightarrow> 'x option) option \<Rightarrow> ('c, 's, 'h, 'x) machine \<Rightarrow> 'x option" where
  "save super m = (case super of None \<Rightarrow> None | Some f \<Rightarrow> f (current_state_code m))"

text \<open>
  \<^verbatim>\<open>condition == arg or condition is StateMachine.ANY\<close>, for a state and for a symbol.
  No state equals \<^verbatim>\<open>None\<close>.
\<close>

definition state_matches :: "'c store \<Rightarrow> 'c pyval matcher \<Rightarrow> 'c pyval option \<Rightarrow> bool" where
  "state_matches st condition arg =
     (case condition of
        ANY \<Rightarrow> True
      | Exactly v \<Rightarrow> (case arg of None \<Rightarrow> False | Some w \<Rightarrow> py_eq (deref st v) (deref st w)))"

definition symbol_matches :: "'s matcher \<Rightarrow> 's \<Rightarrow> bool" where
  "symbol_matches condition arg = (case condition of ANY \<Rightarrow> True | Exactly s \<Rightarrow> s = arg)"

definition rule_matches :: "'c store \<Rightarrow> ('c, 's) rule \<Rightarrow> 'c pyval option \<Rightarrow> 's \<Rightarrow> 'c pyval \<Rightarrow> bool" where
  "rule_matches st r from_state symbol to_state =
     (case r of
        (f, s, t) \<Rightarrow>
          state_matches st f from_state \<and> symbol_matches s symbol \<and>
          state_matches st t (Some to_state))"

type_synonym ('h, 'x, 'r) results = "('h \<times> ('x + 'r)) list"

text \<open>
  The inner loop of \<^verbatim>\<open>call_handlers\<close>, over the handlers of one rule. An exception
  that \<^verbatim>\<open>except Exception\<close> does not catch ends it: the first component of the result.
\<close>

fun call_each :: "('c, 's, 'h, 'x, 'r) machine_class \<Rightarrow> 'c store \<Rightarrow> 'c pyval option \<Rightarrow> 's \<Rightarrow> 'c pyval \<Rightarrow>
    'h list \<Rightarrow> ('h, 'x, 'r) results \<times> ('c, 's, 'h, 'x) machine \<Rightarrow>
    'x option \<times> ('h, 'x, 'r) results \<times> ('c, 's, 'h, 'x) machine" where
  "call_each K st from_state symbol to_state [] (results, m) = (None, results, m)"
| "call_each K st from_state symbol to_state (handler # hs) (results, m) =
     (let m1 = m\<lparr>trace := trace m @ [HandlerCall handler from_state symbol to_state]\<rparr> in
      case call K handler st (current_state_code m) from_state symbol to_state of
        Inr v \<Rightarrow>
          call_each K st from_state symbol to_state hs (results @ [(handler, Inr v)], m1)
      | Inl (Exception e) \<Rightarrow>
          call_each K st from_state symbol to_state hs
            (results @ [(handler, Inl e)], m1\<lparr>trace := trace m1 @ [LogError handler e]\<rparr>)
      | Inl (BaseException e) \<Rightarrow> (Some e, results, m1))"

text \<open>The outer loop, over the items of \<^verbatim>\<open>get_handlers()\<close>.\<close>

fun call_rules :: "('c, 's, 'h, 'x, 'r) machine_class \<Rightarrow> 'c store \<Rightarrow> 'c pyval option \<Rightarrow> 's \<Rightarrow> 'c pyval \<Rightarrow>
    ('c, 's, 'h) registry \<Rightarrow> ('h, 'x, 'r) results \<times> ('c, 's, 'h, 'x) machine \<Rightarrow>
    'x option \<times> ('h, 'x, 'r) results \<times> ('c, 's, 'h, 'x) machine" where
  "call_rules K st from_state symbol to_state [] (results, m) = (None, results, m)"
| "call_rules K st from_state symbol to_state ((r, handlers) # rest) (results, m) =
     (if rule_matches st r from_state symbol to_state
      then (case call_each K st from_state symbol to_state handlers (results, m) of
              (Some e, results', m') \<Rightarrow> (Some e, results', m')
            | (None, results', m') \<Rightarrow>
                call_rules K st from_state symbol to_state rest (results', m'))
      else call_rules K st from_state symbol to_state rest (results, m))"

type_synonym ('c, 's, 'x) raised = "('c pyval option \<times> 's, 'x) exn"

definition call_handlers :: "('c, 's, 'h, 'x, 'r) machine_class \<Rightarrow> 'c store \<Rightarrow> 'c pyval option \<Rightarrow> 's \<Rightarrow> 'c pyval \<Rightarrow>
    ('c, 's, 'h, 'x) machine \<Rightarrow> (('c, 's, 'x) raised + ('h, 'x, 'r) results) \<times> ('c, 's, 'h, 'x) machine" where
  "call_handlers K st from_state symbol to_state m =
     (case get_handlers st (mro K) of
        Inl e \<Rightarrow> (Inl (Error e), m)
      | Inr rules \<Rightarrow>
          (case call_rules K st from_state symbol to_state rules ([], m) of
             (Some e, results, m') \<Rightarrow> (Inl (Escaped e), m')
           | (None, results, m') \<Rightarrow> (Inr results, m')))"

text \<open>
  \<^verbatim>\<open>transition\<close>, once \<^verbatim>\<open>self.states\<close> has been read: \<open>st\<close> and \<open>tbl\<close> are the
  instances and the table it gave.
\<close>

definition transition_in :: "('c, 's, 'h, 'x, 'r) machine_class \<Rightarrow> 'c store \<Rightarrow> 'c table \<Rightarrow> 's \<Rightarrow>
    ('c, 's, 'h, 'x) machine \<Rightarrow> (('c, 's, 'x) raised + ('h, 'x, 'r) results) \<times> ('c, 's, 'h, 'x) machine" where
  "transition_in K st tbl symbol m =
     (case get_next st (transitions K) tbl symbol m of
        Inl e \<Rightarrow> (Inl (IllegalTransition (current_state tbl m, symbol)), m)
      | Inr next_state \<Rightarrow>
          let m1 = m\<lparr>trace := trace m @ [GuardCall (current_state tbl m) symbol next_state]\<rparr> in
          if \<not> allow_transition K st (current_state tbl m) symbol next_state
          then (Inl (IllegalTransition (current_state tbl m1, symbol)), m1)
          else
            let current_state = current_state tbl m1 in
            (case set_current_state st tbl (Some next_state) m1 of
               Inl e \<Rightarrow> (Inl (Error e), m1)
             | Inr m2 \<Rightarrow>
                 let m3 = m2\<lparr>trace := trace m2 @ [SaveCall (current_state_code m2)]\<rparr> in
                 (case save (super_save K) m3 of
                    Some e \<Rightarrow> (Inl (Raised e), m3)
                  | None \<Rightarrow> call_handlers K st current_state symbol next_state m3)))"

text \<open>
  \<^verbatim>\<open>transition\<close>. Its first step reads \<^verbatim>\<open>self.states\<close> (in \<^verbatim>\<open>get_next\<close>, through the
  getter of \<^verbatim>\<open>current_state\<close>), which may build the table and may raise; every later
  read within the call finds the table of the first.
\<close>

definition transition :: "('c, 's, 'h, 'x, 'r) machine_class \<Rightarrow> 's \<Rightarrow>
    'c definition_state \<times> ('c, 's, 'h, 'x) machine \<Rightarrow>
    (('c, 's, 'x) raised + ('h, 'x, 'r) results) \<times> 'c definition_state \<times> ('c, 's, 'h, 'x) machine" where
  "transition K symbol dm =
     (case dm of
        (d, m) \<Rightarrow>
          (case states (transitions K) d of
             (Inl e, d') \<Rightarrow> (Inl (Error e), d', m)
           | (Inr tbl, d') \<Rightarrow>
               (case transition_in K (instances d') tbl symbol m of
                  (r, m') \<Rightarrow> (r, d', m'))))"


text \<open>The property \<^verbatim>\<open>current_state\<close> of a machine, read from outside.\<close>

definition read_current_state :: "('c, 's, 'h, 'x, 'r) machine_class \<Rightarrow>
    'c definition_state \<times> ('c, 's, 'h, 'x) machine \<Rightarrow> (error + 'c pyval option) \<times> 'c definition_state" where
  "read_current_state K dm =
     (case dm of
        (d, m) \<Rightarrow>
          (case states (transitions K) d of
             (Inl e, d') \<Rightarrow> (Inl e, d')
           | (Inr tbl, d') \<Rightarrow> (Inr (current_state tbl m), d')))"

section \<open>Notions used in the properties\<close>

text \<open>
  Every value of \<^verbatim>\<open>transitions\<close>, in the order in which \<^verbatim>\<open>states\<close> goes through them.
\<close>

definition items :: "('c, 's) spec \<Rightarrow> 'c pyval list" where
  "items tr = right_side tr @ map fst tr"

text \<open>
  What Python guarantees and a list of instances with addresses does not: a reference
  points to an instance, and the table files an instance under its own code.
\<close>

definition ref_ok :: "'c store \<Rightarrow> 'c pyval \<Rightarrow> bool" where
  "ref_ok st v = (case v of Ref a \<Rightarrow> a < length st | Code c \<Rightarrow> True)"

definition table_ok :: "'c store \<Rightarrow> 'c table \<Rightarrow> bool" where
  "table_ok st tbl = list_all (\<lambda>(c, a). a < length st \<and> code (st ! a) = c) tbl"


text \<open>A later store: it may hold more instances, and every instance keeps its code.\<close>

definition ext :: "'c store \<Rightarrow> 'c store \<Rightarrow> bool" where
  "ext st st' = (length st \<le> length st' \<and> (\<forall>a < length st. code (st' ! a) = code (st ! a)))"

definition is_guard_call :: "('c, 's, 'h, 'x) event \<Rightarrow> bool" where
  "is_guard_call e = (case e of GuardCall f s n \<Rightarrow> True | _ \<Rightarrow> False)"

definition is_handler_event :: "('c, 's, 'h, 'x) event \<Rightarrow> bool" where
  "is_handler_event e =
     (case e of HandlerCall h f s n \<Rightarrow> True | LogError h x \<Rightarrow> True | _ \<Rightarrow> False)"




text \<open>The handlers of every rule that matches, rule by rule.\<close>

definition matching_handlers :: "'c store \<Rightarrow> ('c, 's, 'h) registry \<Rightarrow> 'c pyval option \<Rightarrow> 's \<Rightarrow> 'c pyval \<Rightarrow> 'h list" where
  "matching_handlers st rules from_state symbol to_state =
     concat (map snd (filter (\<lambda>(r, hs). rule_matches st r from_state symbol to_state) rules))"

text \<open>
  For the proofs about the loop of \<^verbatim>\<open>states\<close>: the addresses written in a list of
  values; the values an attribute \<open>g\<close> has among the instances of code \<open>c\<close> at a set
  of addresses; two different values for one code; two instances of one code in
  conflict; and what makes \<open>g\<close> an attribute that \<^verbatim>\<open>merge_data\<close> merges.
\<close>

definition refs :: "'c pyval list \<Rightarrow> addr set" where
  "refs vs = {a. Ref a \<in> set vs}"

definition vals :: "('c state \<Rightarrow> 'a option) \<Rightarrow> 'c store \<Rightarrow> addr set \<Rightarrow> 'c \<Rightarrow> 'a set" where
  "vals g st S c = {v. \<exists>a\<in>S. code (st ! a) = c \<and> g (st ! a) = Some v}"

definition clash :: "('c state \<Rightarrow> 'a option) \<Rightarrow> 'c store \<Rightarrow> addr set \<Rightarrow> bool" where
  "clash g st S = (\<exists>c v w. v \<in> vals g st S c \<and> w \<in> vals g st S c \<and> v \<noteq> w)"

definition conflict_in :: "'c store \<Rightarrow> addr set \<Rightarrow> bool" where
  "conflict_in st S = (\<exists>a\<in>S. \<exists>b\<in>S. code (st ! a) = code (st ! b) \<and> conflict (st ! a) (st ! b))"

definition attr_of :: "('c state \<Rightarrow> 'a option) \<Rightarrow> bool" where
  "attr_of g = ((\<forall>s t. g (merged s t) = non_null (g s) (g t)) \<and>
                (\<forall>s t. \<not> conflict s t \<longrightarrow> \<not> conflicting (g s) (g t)) \<and>
                (\<forall>c. g (State c) = None))"

text \<open>
  The words of the specification about initial states: the \<open>State\<close> instances
  written in \<^verbatim>\<open>transitions\<close>; two of them with one code and conflicting data; the
  codes of those explicitly marked initial; the codes that are keys of
  \<^verbatim>\<open>transitions\<close> and never a destination; and the resulting set of initial states.
\<close>

definition declared :: "'c store \<Rightarrow> ('c, 's) spec \<Rightarrow> 'c state list" where
  "declared st tr =
     List.map_filter (\<lambda>v. case v of Ref a \<Rightarrow> Some (st ! a) | Code c \<Rightarrow> None) (items tr)"

definition merge_conflict :: "'c store \<Rightarrow> ('c, 's) spec \<Rightarrow> bool" where
  "merge_conflict st tr =
     (\<exists>s\<in>set (declared st tr). \<exists>t\<in>set (declared st tr). code s = code t \<and> conflict s t)"

definition explicit_initials :: "'c store \<Rightarrow> ('c, 's) spec \<Rightarrow> 'c list" where
  "explicit_initials st tr =
     remdups (map code (filter (\<lambda>s. truthy (is_initial s)) (declared st tr)))"

definition deduced_initials :: "'c store \<Rightarrow> ('c, 's) spec \<Rightarrow> 'c list" where
  "deduced_initials st tr =
     remdups (filter (\<lambda>c. c \<notin> set (map (code_of st) (right_side tr)))
                (map (code_of st \<circ> fst) tr))"

definition initial_set :: "'c store \<Rightarrow> ('c, 's) spec \<Rightarrow> 'c list" where
  "initial_set st tr =
     (if explicit_initials st tr \<noteq> [] then explicit_initials st tr else deduced_initials st tr)"

text \<open>
  The two lists \<^verbatim>\<open>initials\<close> and \<^verbatim>\<open>terminals\<close> of \<^verbatim>\<open>states\<close>, after the deduction.
\<close>

definition initials_for :: "'c store \<Rightarrow> 'c table \<Rightarrow> ('c, 's) spec \<Rightarrow> 'c pyval list" where
  "initials_for st tbl tr =
     (let initials = map (Ref \<circ> snd) (filter (\<lambda>(c, a). truthy (is_initial (st ! a))) tbl)
      in if length initials = 0 then deduce_initial_states st tr else initials)"

definition terminals_for :: "'c store \<Rightarrow> 'c table \<Rightarrow> ('c, 's) spec \<Rightarrow> 'c pyval list" where
  "terminals_for st tbl tr =
     (let terminals = map (Ref \<circ> snd) (filter (\<lambda>(c, a). truthy (is_terminal (st ! a))) tbl)
      in if length terminals = 0 then deduce_terminal_states st tr else terminals)"

subsection \<open>The machine of the tests\<close>

text \<open>
  \<^verbatim>\<open>TestStateMachine\<close> of \<^verbatim>\<open>tests.py\<close>: the two instances written in its
  \<^verbatim>\<open>transitions\<close>, the transitions (symbols are strings or \<^verbatim>\<open>None\<close>), and the definition
  once its table is built.
\<close>

definition tests_store :: "nat store" where
  "tests_store =
     [\<lparr>code = 0, label = Some ''initial'', is_initial = None, is_terminal = None\<rparr>,
      \<lparr>code = 1, label = Some ''label1'', is_initial = None, is_terminal = None\<rparr>]"

definition tests_transitions :: "(nat, string option) spec" where
  "tests_transitions =
     [(Ref 0, [(Some ''success'', Ref 1), (Some ''fail'', Code 2)]),
      (Code 1, [(None, Code 2)])]"

definition tests_table :: "nat table" where
  "tests_table = [(1, 1), (2, 2), (0, 0)]"

definition tests_built :: "nat definition_state" where
  "tests_built =
     \<lparr>instances =
        [\<lparr>code = 0, label = Some ''initial'', is_initial = Some True, is_terminal = None\<rparr>,
         \<lparr>code = 1, label = Some ''label1'', is_initial = None, is_terminal = None\<rparr>,
         \<lparr>code = 2, label = None, is_initial = None, is_terminal = Some True\<rparr>,
         \<lparr>code = 2, label = None, is_initial = None, is_terminal = None\<rparr>,
         \<lparr>code = 1, label = None, is_initial = None, is_terminal = None\<rparr>],
      cached_states = Some tests_table\<rparr>"

definition StateMachine_class :: "(nat, string option, nat) klass" where
  "StateMachine_class = \<lparr>cname = ''StateMachine'', handlers_attr = Some [], get_handlers_attr = None\<rparr>"

definition plain_class :: "string \<Rightarrow> (nat, string option, nat) klass" where
  "plain_class name = \<lparr>cname = name, handlers_attr = None, get_handlers_attr = None\<rparr>"

text \<open>
  A machine class over these transitions with the default guard and no \<^verbatim>\<open>save\<close>
  beyond \<^verbatim>\<open>StateMachine\<close>'s; handler \<open>h\<close> returns \<open>h\<close>, but handler 20 raises an
  \<^verbatim>\<open>Exception\<close> and handler 30 a \<^verbatim>\<open>SystemExit\<close>.
\<close>

definition tests_class :: "(nat, string option, nat) klass list \<Rightarrow> (nat, string option, nat, string, nat) machine_class" where
  "tests_class classes =
     \<lparr>transitions = tests_transitions, mro = classes,
      allow_transition = (\<lambda>st from_state symbol next_state. True),
      super_save = None,
      call = (\<lambda>h st cc from_state symbol to_state.
                if h = 20 then Inl (Exception ''boom'')
                else if h = 30 then Inl (BaseException ''SystemExit'')
                else Inr h)\<rparr>"


text \<open>The same machine class when the \<^verbatim>\<open>save\<close> of a superclass fails.\<close>

definition unsaved_class :: "(nat, string option, nat, string, nat) machine_class" where
  "unsaved_class = (tests_class [StateMachine_class])\<lparr>super_save := Some (\<lambda>cc. Some ''lost'')\<rparr>"



definition parent_and_subclass :: "(nat, string option, nat) klass list" where
  "parent_and_subclass =
     handle tests_store ''S'' (Exactly (Code 0), ANY, ANY) 20
       (handle tests_store ''P'' (Exactly (Code 0), ANY, ANY) 10
          [plain_class ''S'', plain_class ''P'', StateMachine_class])"



section \<open>Properties of State\<close>

lemma merge_attr_conflict: "conflicting x y \<Longrightarrow> merge_attr x y = None"
  by (auto simp: merge_attr_def conflicting_def)

lemma merge_attr_ok: "\<not> conflicting x y \<Longrightarrow> merge_attr x y = Some (non_null x y)"
  by (cases x; cases y) (auto simp: merge_attr_def conflicting_def non_null_def)

lemma merge_data_ok:
  assumes "code self = code other" and "\<not> conflict self other"
  shows "merge_data self other = (None, merged self other)"
proof -
  from assms(2) have "\<not> conflicting (label self) (label other)"
    and "\<not> conflicting (is_initial self) (is_initial other)"
    and "\<not> conflicting (is_terminal self) (is_terminal other)"
    by (simp_all add: conflict_def)
  then show ?thesis
    using assms(1)
    by (simp add: merge_data_def State_ne_def State_eq_def merge_attr_ok merged_def)
qed

lemma merge_data_conflict:
  assumes "code self = code other" and "conflict self other"
  shows "\<exists>attr. fst (merge_data self other) = Some (ImproperlyConfigured attr)"
proof (cases "conflicting (label self) (label other)")
  case True
  then show ?thesis
    using assms(1) by (simp add: merge_data_def State_ne_def State_eq_def merge_attr_conflict)
next
  case l: False
  show ?thesis
  proof (cases "conflicting (is_initial self) (is_initial other)")
    case True
    then show ?thesis
      using assms(1) l
      by (simp add: merge_data_def State_ne_def State_eq_def merge_attr_conflict merge_attr_ok)
  next
    case False
    with l assms(2) have "conflicting (is_terminal self) (is_terminal other)"
      by (simp add: conflict_def)
    then show ?thesis
      using assms(1) l False
      by (simp add: merge_data_def State_ne_def State_eq_def merge_attr_conflict merge_attr_ok)
  qed
qed

text \<open>
  C6. Merging fails with \<open>ValueError\<close> when the codes differ. With equal codes it
  fails with \<open>ImproperlyConfigured\<close> exactly when label, is_initial or is_terminal
  hold differing non-null values on the two sides, and otherwise every attribute of
  the merged state is the non-null value of the two (null when both are null).
\<close>

theorem merge_data_contract:
  "(code self \<noteq> code other \<longrightarrow> merge_data self other = (Some ValueError, self)) \<and>
   (code self = code other \<longrightarrow>
      ((\<exists>attr. fst (merge_data self other) = Some (ImproperlyConfigured attr)) =
          conflict self other) \<and>
      (\<not> conflict self other \<longrightarrow> merge_data self other = (None, merged self other)))"
proof (intro conjI impI)
  assume "code self \<noteq> code other"
  then show "merge_data self other = (Some ValueError, self)"
    by (simp add: merge_data_def State_ne_def State_eq_def)
next
  assume eq: "code self = code other"
  show "(\<exists>attr. fst (merge_data self other) = Some (ImproperlyConfigured attr)) =
          conflict self other"
  proof (cases "conflict self other")
    case True
    with eq show ?thesis using merge_data_conflict [of self other] by simp
  next
    case False
    with eq show ?thesis using merge_data_ok [of self other] by simp
  qed
next
  assume "code self = code other" and "\<not> conflict self other"
  then show "merge_data self other = (None, merged self other)"
    by (rule merge_data_ok)
qed

theorem merge_data_contract_witness:
  "merge_data \<lparr>code = (1::nat), label = None, is_initial = Some True, is_terminal = None\<rparr>
              \<lparr>code = 1, label = Some ''one'', is_initial = None, is_terminal = None\<rparr>
   = (None,
      \<lparr>code = 1, label = Some ''one'', is_initial = Some True, is_terminal = None\<rparr>)"
  using merge_data_contract
    [of "\<lparr>code = (1::nat), label = None, is_initial = Some True, is_terminal = None\<rparr>"
        "\<lparr>code = 1, label = Some ''one'', is_initial = None, is_terminal = None\<rparr>"]
  by (simp add: conflict_def conflicting_def merged_def non_null_def)

text \<open>
  C8. \<open>State(c) == c\<close> and \<open>c == State(c)\<close>; two states, or a state and a bare
  code, are equal exactly when the codes are, whichever side each stands on; and the
  hash of a state is the hash of its code.
\<close>

theorem State_eq_hash_by_code:
  "py_eq (Inst (State c)) (Bare c) \<and> py_eq (Bare c) (Inst (State c)) \<and>
   py_eq (Inst s) (Inst t) = (code s = code t) \<and>
   py_eq (Inst s) (Bare d) = (code s = d) \<and>
   py_eq (Bare d) (Inst s) = (code s = d) \<and>
   py_eq x y = py_eq y x \<and>
   State_hash h (State c) = h c \<and> State_hash h s = h (code s)"
proof -
  have sym: "py_eq x y = py_eq y x"
    by (cases x; cases y) (auto simp: State_eq_def)
  show ?thesis
    using sym by (simp add: State_eq_def State_hash_def State_def)
qed

theorem State_eq_hash_by_code_witness:
  "py_eq (Inst (State (0::nat))) (Bare 0) \<and> py_eq (Bare (0::nat)) (Inst (State 0)) \<and>
   \<not> py_eq (Inst (State (0::nat))) (Bare 1) \<and>
   State_hash int (State (7::nat)) = 7"
  using State_eq_hash_by_code [of "0::nat" "State 0" "State 0" 1 "Bare 0" "Bare 0" int]
    State_eq_hash_by_code [of "7::nat" "State 0" "State 0" 1 "Bare 0" "Bare 0" int]
  by (simp add: State_def)

section \<open>Comparisons and lookups go through the code\<close>

lemma py_eq_code_of: "py_eq (deref st v) (deref st w) = (code_of st v = code_of st w)"
  by (cases v; cases w) (auto simp: deref_def code_of_def State_eq_def)

lemma py_eq_Bare_code_of: "py_eq (Bare c) (deref st v) = (c = code_of st v)"
  by (cases v) (auto simp: deref_def code_of_def State_eq_def)

lemma table_get_map_of: "table_get st tbl v = map_of tbl (code_of st v)"
  by (induction tbl) (auto simp: table_get_def py_eq_Bare_code_of)

lemma lookup_code_KeyError:
  "cc \<notin> Some ` fst ` set tbl \<Longrightarrow> lookup_code tbl cc = Inl KeyError"
  by (cases cc) (auto simp: lookup_code_def map_of_eq_None_iff image_iff split: option.splits)

lemma states_cached:
  assumes "states tr d = (r, d')"
  shows "\<exists>tbl. cached_states d' = Some tbl \<and> (\<forall>t. r = Inr t \<longrightarrow> t = tbl)"
  using assms
  by (auto simp: states_def split: if_splits prod.splits option.splits)

lemma states_tests_built: "states tests_transitions tests_built = (Inr tests_table, tests_built)"
  by (simp add: states_def tests_built_def tests_table_def)

lemma states_tests:
  "states tests_transitions \<lparr>instances = tests_store, cached_states = None\<rparr> =
     (Inr tests_table, tests_built)"
  by code_simp

section \<open>Reading the current state\<close>

text \<open>
  C9. When \<open>current_state_code\<close> is no key of the table of states, the lookup of
  the getter raises \<open>KeyError\<close>, the getter swallows it, and reading \<open>current_state\<close>
  gives \<open>None\<close> and no error.
\<close>

theorem current_state_swallows_KeyError:
  assumes "states (transitions K) d = (Inr tbl, d')"
    and "current_state_code m \<notin> Some ` fst ` set tbl"
  shows "lookup_code tbl (current_state_code m) = Inl KeyError \<and>
         current_state tbl m = None \<and>
         read_current_state K (d, m) = (Inr None, d')"
  using assms by (simp add: lookup_code_KeyError current_state_def read_current_state_def)

theorem current_state_swallows_KeyError_witness:
  "lookup_code tests_table (Some 7) = Inl KeyError \<and>
   read_current_state (tests_class [])
     (tests_built, \<lparr>current_state_code = Some 7, trace = []\<rparr>) = (Inr None, tests_built)"
proof -
  have h1: "states (transitions (tests_class [])) tests_built = (Inr tests_table, tests_built)"
    by (simp add: tests_class_def states_tests_built)
  have h2: "current_state_code \<lparr>current_state_code = Some (7::nat), trace = []\<rparr>
              \<notin> Some ` fst ` set tests_table"
    by (simp add: tests_table_def)
  from current_state_swallows_KeyError [OF h1 h2] show ?thesis by simp
qed

section \<open>The loops of call_handlers\<close>

lemma call_each_trace:
  assumes "call_each K st f s t hs (res, m) = (r, res', m')"
  shows "current_state_code m' = current_state_code m \<and>
         (\<exists>rest. trace m' = trace m @ rest \<and> list_all is_handler_event rest)"
  using assms
proof (induction hs arbitrary: res m)
  case Nil
  then show ?case by simp
next
  case (Cons h hs)
  let ?m1 = "m\<lparr>trace := trace m @ [HandlerCall h f s t]\<rparr>"
  show ?case
  proof (cases "call K h st (current_state_code m) f s t")
    case (Inr v)
    with Cons.prems have "call_each K st f s t hs (res @ [(h, Inr v)], ?m1) = (r, res', m')"
      by (simp add: Let_def)
    from Cons.IH [OF this] show ?thesis by (auto simp: is_handler_event_def)
  next
    case (Inl th)
    show ?thesis
    proof (cases th)
      case (Exception e)
      with Inl Cons.prems
      have "call_each K st f s t hs (res @ [(h, Inl e)], ?m1\<lparr>trace := trace ?m1 @ [LogError h e]\<rparr>) =
              (r, res', m')"
        by (simp add: Let_def)
      from Cons.IH [OF this] show ?thesis by (auto simp: is_handler_event_def)
    next
      case (BaseException e)
      with Inl Cons.prems have "m' = ?m1" by (simp add: Let_def)
      then show ?thesis by (simp add: is_handler_event_def)
    qed
  qed
qed

lemma call_each_append:
  "call_each K st f s t (xs @ ys) (res, m) =
     (case call_each K st f s t xs (res, m) of
        (Some e, res', m') \<Rightarrow> (Some e, res', m')
      | (None, res', m') \<Rightarrow> call_each K st f s t ys (res', m'))"
proof (induction xs arbitrary: res m)
  case Nil
  then show ?case by simp
next
  case (Cons h xs)
  show ?case
  proof (cases "call K h st (current_state_code m) f s t")
    case (Inr v)
    then show ?thesis by (simp add: Let_def Cons.IH)
  next
    case (Inl th)
    then show ?thesis by (cases th) (simp_all add: Let_def Cons.IH)
  qed
qed

lemma call_rules_flat:
  "call_rules K st f s t rules (res, m) =
     call_each K st f s t (matching_handlers st rules f s t) (res, m)"
proof (induction rules arbitrary: res m)
  case Nil
  then show ?case by (simp add: matching_handlers_def)
next
  case (Cons rh rules)
  obtain r hs where rh: "rh = (r, hs)" by (cases rh)
  have ih: "\<And>res m. call_rules K st f s t rules (res, m) =
      call_each K st f s t (concat (map snd (filter (\<lambda>(r, hs). rule_matches st r f s t) rules))) (res, m)"
    using Cons.IH by (simp add: matching_handlers_def)
  show ?case
  proof (cases "rule_matches st r f s t")
    case False
    then show ?thesis by (simp add: rh ih matching_handlers_def)
  next
    case True
    obtain e res' m' where c: "call_each K st f s t hs (res, m) = (e, res', m')"
      by (cases "call_each K st f s t hs (res, m)") auto
    show ?thesis
      by (cases e) (simp_all add: rh True matching_handlers_def call_each_append c ih)
  qed
qed





lemma call_handlers_result:
  assumes "call_handlers K st f s t m = (r, m')"
  shows "r \<noteq> Inl (Raised e)" and "r \<noteq> Inl (IllegalTransition x)"
  using assms
  by (auto simp: call_handlers_def split: sum.splits prod.splits option.splits)

lemma call_handlers_trace:
  assumes "call_handlers K st f s t m = (r, m')"
  shows "current_state_code m' = current_state_code m \<and>
         (\<exists>rest. trace m' = trace m @ rest \<and> list_all is_handler_event rest)"
proof (cases "get_handlers st (mro K)")
  case (Inl e)
  with assms show ?thesis by (auto simp: call_handlers_def)
next
  case (Inr rules)
  obtain e res' m2 where c: "call_each K st f s t (matching_handlers st rules f s t) ([], m) = (e, res', m2)"
    by (cases "call_each K st f s t (matching_handlers st rules f s t) ([], m)") auto
  with assms Inr have "m' = m2"
    by (cases e) (simp_all add: call_handlers_def call_rules_flat)
  with call_each_trace [OF c] show ?thesis by simp
qed

lemma save_code_only:
  "current_state_code m = current_state_code m' \<Longrightarrow> save super m = save super m'"
  by (cases super) (simp_all add: save_def)

lemma transition_in_accepted:
  assumes gn: "get_next st (transitions K) tbl symbol m = Inr n"
    and al: "allow_transition K st (current_state tbl m) symbol n"
    and tg: "table_get st tbl n = Some a"
    and m3: "m3 = m\<lparr>current_state_code := Some (code (st ! a)),
                 trace := trace m @ [GuardCall (current_state tbl m) symbol n, SaveCall (Some (code (st ! a)))]\<rparr>"
  shows "save (super_save K) m3 = Some e \<Longrightarrow> transition_in K st tbl symbol m = (Inl (Raised e), m3)"
    and "save (super_save K) m3 = None \<Longrightarrow>
         transition_in K st tbl symbol m = call_handlers K st (current_state tbl m) symbol n m3"
  using gn al tg unfolding m3
  by (simp_all add: transition_in_def Let_def set_current_state_def current_state_def)

section \<open>Illegal transitions\<close>

text \<open>
  When \<open>get_next\<close> raises \<open>KeyError\<close> (the machine has no current state, the
  current state is no key of \<open>transitions\<close>, or the symbol is no key for it) and
  when the guard says no, \<open>transition\<close> raises \<open>IllegalTransition\<close>.
\<close>

lemma illegal_transition_causes:
  assumes "states (transitions K) d = (Inr tbl, d')"
    and "get_next (instances d') (transitions K) tbl symbol m = Inl e \<or>
         (\<exists>n. get_next (instances d') (transitions K) tbl symbol m = Inr n \<and>
              \<not> allow_transition K (instances d') (current_state tbl m) symbol n)"
  shows "\<exists>m'. transition K symbol (d, m) =
           (Inl (IllegalTransition (current_state tbl m, symbol)), d', m')"
  using assms
  by (auto simp: transition_def transition_in_def Let_def current_state_def)

lemma get_next_KeyError:
  "current_state tbl m = None \<Longrightarrow> get_next st tr tbl symbol m = Inl KeyError"
  "current_state tbl m = Some cur \<Longrightarrow> dict_get st tr cur = None \<Longrightarrow>
     get_next st tr tbl symbol m = Inl KeyError"
  "current_state tbl m = Some cur \<Longrightarrow> dict_get st tr cur = Some ts \<Longrightarrow> map_of ts symbol = None \<Longrightarrow>
     get_next st tr tbl symbol m = Inl KeyError"
  by (simp_all add: get_next_def)

text \<open>
  C3. When \<open>transition\<close> raises \<open>IllegalTransition\<close>, \<open>current_state_code\<close> is
  what it was before the call, and the call has done nothing but, at most, ask the
  guard: \<open>save\<close> was not called and no handler was. The exception carries the current
  state and the symbol.
\<close>

theorem illegal_transition_leaves_machine:
  assumes "transition K symbol (d, m) = (Inl (IllegalTransition x), d', m')"
  shows "current_state_code m' = current_state_code m \<and>
         (\<exists>new. trace m' = trace m @ new \<and> list_all is_guard_call new) \<and>
         (\<exists>tbl. cached_states d' = Some tbl \<and> x = (current_state tbl m, symbol))"
proof -
  from assms obtain tbl where st: "states (transitions K) d = (Inr tbl, d')"
    and ti: "transition_in K (instances d') tbl symbol m = (Inl (IllegalTransition x), m')"
    by (auto simp: transition_def split: prod.splits sum.splits)
  from states_cached [OF st] have c: "cached_states d' = Some tbl" by auto
  have "current_state_code m' = current_state_code m \<and>
      (\<exists>new. trace m' = trace m @ new \<and> list_all is_guard_call new) \<and>
      x = (current_state tbl m, symbol)"
  proof (cases "get_next (instances d') (transitions K) tbl symbol m")
    case (Inl e)
    with ti show ?thesis by (auto simp: transition_in_def)
  next
    case (Inr n)
    show ?thesis
    proof (cases "allow_transition K (instances d') (current_state tbl m) symbol n")
      case False
      with ti Inr show ?thesis
        by (auto simp: transition_in_def Let_def current_state_def is_guard_call_def)
    next
      case True
      show ?thesis
      proof (cases "table_get (instances d') tbl n")
        case None
        with ti Inr True show ?thesis
          by (simp add: transition_in_def Let_def set_current_state_def)
      next
        case (Some a)
        note acc = transition_in_accepted [OF Inr True Some refl]
        show ?thesis
        proof (cases "save (super_save K)
            (m\<lparr>current_state_code := Some (code (instances d' ! a)),
               trace := trace m @ [GuardCall (current_state tbl m) symbol n,
                                   SaveCall (Some (code (instances d' ! a)))]\<rparr>)")
          case (Some e)
          from acc(1) [OF Some] ti show ?thesis by simp
        next
          case None
          from acc(2) [OF None] ti call_handlers_result(2) show ?thesis by metis
        qed
      qed
    qed
  qed
  with c show ?thesis by simp
qed

theorem illegal_transition_leaves_machine_witness:
  "transition (tests_class [StateMachine_class]) (Some ''success'')
     (tests_built, \<lparr>current_state_code = Some 1, trace = []\<rparr>) =
     (Inl (IllegalTransition (Some (Ref 1), Some ''success'')), tests_built,
      \<lparr>current_state_code = Some 1, trace = []\<rparr>) \<and>
   current_state_code \<lparr>current_state_code = Some (1::nat), trace = []\<rparr> = Some 1"
proof -
  have h: "transition (tests_class [StateMachine_class]) (Some ''success'')
     (tests_built, \<lparr>current_state_code = Some 1, trace = []\<rparr>) =
     (Inl (IllegalTransition (Some (Ref 1), Some ''success'')), tests_built,
      \<lparr>current_state_code = Some 1, trace = []\<rparr>)"
    by code_simp
  from illegal_transition_leaves_machine [OF h] h show ?thesis by simp
qed

section \<open>What building the table keeps true\<close>

lemma ext_refl: "ext st st"
  by (simp add: ext_def)

lemma ext_trans: "ext st st1 \<Longrightarrow> ext st1 st2 \<Longrightarrow> ext st st2"
  by (auto simp: ext_def)

lemma ext_table_ok: "table_ok st tbl \<Longrightarrow> ext st st' \<Longrightarrow> table_ok st' tbl"
  by (auto simp: table_ok_def ext_def list_all_iff)

lemma ext_ref_ok: "ref_ok st v \<Longrightarrow> ext st st' \<Longrightarrow> ref_ok st' v"
  by (cases v) (auto simp: ref_ok_def ext_def)

lemma ext_refs_ok: "list_all (ref_ok st) vs \<Longrightarrow> ext st st' \<Longrightarrow> list_all (ref_ok st') vs"
  by (auto simp: list_all_iff intro: ext_ref_ok)

lemma ext_code_of: "ref_ok st v \<Longrightarrow> ext st st' \<Longrightarrow> code_of st' v = code_of st v"
  by (cases v) (auto simp: ref_ok_def ext_def code_of_def)

lemma wrap_ext:
  assumes "wrap st v = (a, st1)" and "ref_ok st v"
  shows "ext st st1 \<and> a < length st1 \<and> code (st1 ! a) = code_of st v"
  using assms
  by (cases v) (auto simp: ext_def ref_ok_def code_of_def nth_append State_def)

lemma merge_data_code: "code (snd (merge_data s t)) = code s"
  by (simp add: merge_data_def Let_def split: option.splits)

lemma update_ext:
  assumes "b < length st" and "code s = code (st ! b)"
  shows "ext st (st[b := s])"
  using assms by (auto simp: ext_def nth_list_update)

lemma table_ok_map_of:
  "table_ok st tbl \<Longrightarrow> map_of tbl c = Some b \<Longrightarrow> b < length st \<and> code (st ! b) = c"
  by (auto simp: table_ok_def list_all_iff dest!: map_of_SomeD)

lemma gather_step_inv:
  assumes "table_ok st tbl" and "ref_ok st v" and "gather_step v st tbl = (r, st', tbl')"
  shows "ext st st' \<and> table_ok st' tbl'"
proof -
  obtain a st1 where w: "wrap st v = (a, st1)" by (cases "wrap st v")
  from wrap_ext [OF w assms(2)] have e1: "ext st st1" and a: "a < length st1" by simp_all
  have t1: "table_ok st1 tbl" using assms(1) e1 by (rule ext_table_ok)
  show ?thesis
  proof (cases "map_of tbl (code (st1 ! a))")
    case None
    with assms(3) w have "st' = st1" and "tbl' = tbl @ [(code (st1 ! a), a)]"
      by (auto simp: gather_step_def)
    with t1 a e1 show ?thesis by (simp add: table_ok_def)
  next
    case (Some b)
    from table_ok_map_of [OF t1 Some] have b: "b < length st1" by simp
    obtain e s where md: "merge_data (st1 ! b) (st1 ! a) = (e, s)"
      by (cases "merge_data (st1 ! b) (st1 ! a)")
    have "code s = code (st1 ! b)" using merge_data_code [of "st1 ! b" "st1 ! a"] md by simp
    from update_ext [OF b this] have e2: "ext st1 (st1[b := s])" .
    from assms(3) w Some md have "st' = st1[b := s]" and "tbl' = tbl"
      by (auto simp: gather_step_def)
    with t1 e1 e2 show ?thesis by (auto intro: ext_trans ext_table_ok)
  qed
qed

lemma gather_inv:
  assumes "table_ok st tbl" and "list_all (ref_ok st) vs" and "gather vs st tbl = (r, st', tbl')"
  shows "ext st st' \<and> table_ok st' tbl'"
  using assms
proof (induction vs arbitrary: st tbl)
  case Nil
  then show ?case by (simp add: ext_refl)
next
  case (Cons v vs)
  obtain r1 st1 tbl1 where s: "gather_step v st tbl = (r1, st1, tbl1)"
    by (cases "gather_step v st tbl") auto
  from Cons.prems(2) have rv: "ref_ok st v" and rvs: "list_all (ref_ok st) vs" by simp_all
  from gather_step_inv [OF Cons.prems(1) rv s] have e1: "ext st st1" and t1: "table_ok st1 tbl1"
    by simp_all
  show ?case
  proof (cases r1)
    case None
    with Cons.prems(3) s have g: "gather vs st1 tbl1 = (r, st', tbl')" by simp
    have "list_all (ref_ok st1) vs" using rvs e1 by (rule ext_refs_ok)
    from Cons.IH [OF t1 this g] e1 show ?thesis by (auto intro: ext_trans)
  next
    case (Some e)
    with Cons.prems(3) s have "st' = st1" and "tbl' = tbl1" by simp_all
    with e1 t1 show ?thesis by simp
  qed
qed




section \<open>The order of a transition\<close>

text \<open>
  C7. When the lookup of the next state succeeds, the guard allows the transition
  and the setter finds the destination in the table, \<open>current_state_code\<close> is the
  destination's code when \<open>save\<close> is called (the \<open>SaveCall\<close> in the trace shows it),
  and it stays so. If \<open>save\<close> fails, its exception leaves \<open>transition\<close>, no handler
  has been called and the code is not put back; handlers are called only after \<open>save\<close>
  has returned.
\<close>

theorem transition_commit_order:
  assumes st: "states (transitions K) d = (Inr tbl, d')"
    and ok: "table_ok (instances d') tbl"
    and gn: "get_next (instances d') (transitions K) tbl symbol m = Inr n"
    and al: "allow_transition K (instances d') (current_state tbl m) symbol n"
    and tg: "table_get (instances d') tbl n = Some a"
  shows "\<exists>r m' rest.
      transition K symbol (d, m) = (r, d', m') \<and>
      current_state_code m' = Some (code_of (instances d') n) \<and>
      trace m' = trace m @ [GuardCall (current_state tbl m) symbol n,
                            SaveCall (Some (code_of (instances d') n))] @ rest \<and>
      list_all is_handler_event rest \<and>
      (case save (super_save K) m' of
         Some e \<Rightarrow> r = Inl (Raised e) \<and> rest = []
       | None \<Rightarrow> \<forall>e. r \<noteq> Inl (Raised e))"
proof -
  define c where "c = code_of (instances d') n"
  from tg have "map_of tbl c = Some a" by (simp add: table_get_map_of c_def)
  from table_ok_map_of [OF ok this] have ca: "code (instances d' ! a) = c" by simp
  define m3 where "m3 = m\<lparr>current_state_code := Some c,
      trace := trace m @ [GuardCall (current_state tbl m) symbol n, SaveCall (Some c)]\<rparr>"
  have m3: "m3 = m\<lparr>current_state_code := Some (code (instances d' ! a)),
      trace := trace m @ [GuardCall (current_state tbl m) symbol n, SaveCall (Some (code (instances d' ! a)))]\<rparr>"
    by (simp add: m3_def ca)
  note ti = transition_in_accepted [OF gn al tg m3]
  show ?thesis
  proof (cases "save (super_save K) m3")
    case (Some e)
    with ti(1) st have "transition K symbol (d, m) = (Inl (Raised e), d', m3)"
      by (simp add: transition_def)
    moreover have "save (super_save K) m3 = Some e" by (rule Some)
    ultimately show ?thesis
      by (intro exI [of _ "Inl (Raised e)"] exI [of _ m3] exI [of _ "[]"]) (simp add: m3_def c_def)
  next
    case None
    obtain r4 m4 where ch: "call_handlers K (instances d') (current_state tbl m) symbol n m3 = (r4, m4)"
      by (cases "call_handlers K (instances d') (current_state tbl m) symbol n m3")
    from call_handlers_trace [OF ch] obtain rest where
      c4: "current_state_code m4 = Some c" and t4: "trace m4 = trace m3 @ rest"
      and l4: "list_all is_handler_event rest"
      by (auto simp: m3_def)
    have s4: "save (super_save K) m4 = None"
      using None c4 by (simp add: save_def m3_def split: option.splits)
    from ti(2) [OF None] st ch have "transition K symbol (d, m) = (r4, d', m4)"
      by (simp add: transition_def)
    moreover from call_handlers_result(1) [OF ch] have "\<forall>e. r4 \<noteq> Inl (Raised e)" by simp
    ultimately show ?thesis
      using c4 t4 l4 s4
      by (intro exI [of _ r4] exI [of _ m4] exI [of _ rest]) (simp add: m3_def c_def)
  qed
qed

theorem transition_commit_order_witness:
  "\<exists>m'. transition unsaved_class (Some ''success'')
          (tests_built, \<lparr>current_state_code = Some 0, trace = []\<rparr>) =
          (Inl (Raised ''lost''), tests_built, m') \<and>
        current_state_code m' = Some 1 \<and>
        trace m' = [GuardCall (Some (Ref 0)) (Some ''success'') (Ref 1), SaveCall (Some 1)]"
proof -
  let ?m = "\<lparr>current_state_code = Some (0::nat), trace = []\<rparr> :: (nat, string option, nat, string) machine"
  have h1: "states (transitions unsaved_class) tests_built = (Inr tests_table, tests_built)"
    by (simp add: unsaved_class_def tests_class_def states_tests_built)
  have h2: "table_ok (instances tests_built) tests_table"
    by (simp add: table_ok_def tests_built_def tests_table_def)
  have h3: "get_next (instances tests_built) (transitions unsaved_class) tests_table (Some ''success'') ?m
      = Inr (Ref 1)"
    by code_simp
  have h4: "allow_transition unsaved_class (instances tests_built) (current_state tests_table ?m)
      (Some ''success'') (Ref 1)"
    by (simp add: unsaved_class_def tests_class_def)
  have h5: "table_get (instances tests_built) tests_table (Ref 1) = Some 1"
    by code_simp
  have c: "code_of (instances tests_built) (Ref 1) = 1" "current_state tests_table ?m = Some (Ref 0)"
    by code_simp+
  from transition_commit_order [OF h1 h2 h3 h4 h5]
  have "\<exists>r m' rest.
      transition unsaved_class (Some ''success'') (tests_built, ?m) = (r, tests_built, m') \<and>
      current_state_code m' = Some 1 \<and>
      trace m' = [GuardCall (Some (Ref 0)) (Some ''success'') (Ref 1), SaveCall (Some 1)] @ rest \<and>
      list_all is_handler_event rest \<and>
      (case save (super_save unsaved_class) m' of
         Some e \<Rightarrow> r = Inl (Raised e) \<and> rest = []
       | None \<Rightarrow> \<forall>e. r \<noteq> Inl (Raised e))"
    unfolding c by simp
  then obtain r m' rest where
    t: "transition unsaved_class (Some ''success'') (tests_built, ?m) = (r, tests_built, m')"
    and cc: "current_state_code m' = Some 1"
    and tr: "trace m' = [GuardCall (Some (Ref 0)) (Some ''success'') (Ref 1), SaveCall (Some 1)] @ rest"
    and sv: "(case save (super_save unsaved_class) m' of
         Some e \<Rightarrow> r = Inl (Raised e) \<and> rest = []
       | None \<Rightarrow> \<forall>e. r \<noteq> Inl (Raised e))"
    by blast
  have "save (super_save unsaved_class) m' = Some ''lost''"
    by (simp add: save_def unsaved_class_def)
  with sv have "r = Inl (Raised ''lost'')" and "rest = []" by simp_all
  with t cc tr show ?thesis by auto
qed

section \<open>Successful transitions\<close>














section \<open>Dispatch to handlers\<close>







lemma get_handlers_nearest:
  assumes "class_attr get_handlers_attr (after_StateMachine order) = None"
    and "class_attr handlers_attr order = Some own"
  shows "get_handlers st order = Inr (registry_update st [] own)"
  using assms by (simp add: get_handlers_def)

text \<open>
  C1. The specification has the rules of a subclass be the union of its own and its
  ancestors', and the docstring of \<open>get_handlers\<close> announces the merge. The code
  does otherwise as soon as the subclass has rules of its own: \<open>P\<close> has registered
  handler 10 and its subclass \<open>S\<close> handler 20, both for the transitions that leave
  state 0; \<open>get_handlers\<close> of \<open>S\<close> holds the rule of \<open>S\<close> alone, and a transition
  of a machine of class \<open>S\<close> calls handler 20 only. (The rules of \<open>P\<close> are as they
  were.)
\<close>

theorem get_handlers_subclass_shadows_parent:
  "get_handlers tests_store (mro_of ''P'' parent_and_subclass) =
     Inr [((Exactly (Code 0), ANY, ANY), [10])] \<and>
   get_handlers tests_store (mro_of ''S'' parent_and_subclass) =
     Inr [((Exactly (Code 0), ANY, ANY), [20])] \<and>
   fst (transition (tests_class (mro_of ''S'' parent_and_subclass)) (Some ''success'')
          (tests_built, \<lparr>current_state_code = Some 0, trace = []\<rparr>)) = Inr [(20, Inl ''boom'')]"
  by code_simp

section \<open>The loop that gathers the states\<close>

lemma attr_of_label: "attr_of label"
  by (simp add: attr_of_def merged_def conflict_def State_def)

lemma attr_of_is_initial: "attr_of is_initial"
  by (simp add: attr_of_def merged_def conflict_def State_def)

lemma attr_of_is_terminal: "attr_of is_terminal"
  by (simp add: attr_of_def merged_def conflict_def State_def)

lemma non_null_None: "non_null x None = x"
  by (cases x) (simp_all add: non_null_def)

lemma merged_State: "merged s (State c) = s"
  by (simp add: merged_def State_def non_null_None)

lemma conflict_State: "\<not> conflict s (State c)"
  by (simp add: conflict_def conflicting_def State_def)

lemma merge_data_State: "code s = c \<Longrightarrow> merge_data s (State c) = (None, s)"
proof -
  assume "code s = c"
  then have "code s = code (State c)" by (simp add: State_def)
  from merge_data_ok [OF this conflict_State] show ?thesis by (simp add: merged_State)
qed

lemma code_merged: "code (merged s t) = code s"
  by (simp add: merged_def)

lemma conflict_irrefl: "\<not> conflict s s"
  by (simp add: conflict_def conflicting_def)

lemma conflict_sym: "conflict s t = conflict t s"
  by (auto simp: conflict_def conflicting_def)

lemma clashI:
  assumes "a \<in> S" and "b \<in> S" and "code (st ! a) = code (st ! b)"
    and "conflicting (g (st ! a)) (g (st ! b))"
  shows "clash g st S"
proof -
  from assms(4) obtain v w where v: "g (st ! a) = Some v" and w: "g (st ! b) = Some w"
    and n: "v \<noteq> w"
    by (auto simp: conflicting_def)
  from assms(1) v have "v \<in> vals g st S (code (st ! a))" unfolding vals_def by blast
  moreover from assms(2,3) w have "w \<in> vals g st S (code (st ! a))" unfolding vals_def by auto
  ultimately show ?thesis using n unfolding clash_def by blast
qed

lemma clashD:
  assumes "clash g st S"
  shows "\<exists>a\<in>S. \<exists>b\<in>S. code (st ! a) = code (st ! b) \<and> conflicting (g (st ! a)) (g (st ! b))"
proof -
  from assms obtain c v w where v: "v \<in> vals g st S c" and w: "w \<in> vals g st S c" and n: "v \<noteq> w"
    unfolding clash_def by blast
  from v obtain a where a: "a \<in> S" "code (st ! a) = c" "g (st ! a) = Some v"
    unfolding vals_def by blast
  from w obtain b where b: "b \<in> S" "code (st ! b) = c" "g (st ! b) = Some w"
    unfolding vals_def by blast
  from a b n have "code (st ! a) = code (st ! b) \<and> conflicting (g (st ! a)) (g (st ! b))"
    by (simp add: conflicting_def)
  with a(1) b(1) show ?thesis by blast
qed

lemma conflict_in_clash:
  "conflict_in st S = (clash label st S \<or> clash is_initial st S \<or> clash is_terminal st S)"
proof
  assume "conflict_in st S"
  then obtain a b where a: "a \<in> S" and b: "b \<in> S" and c: "code (st ! a) = code (st ! b)"
    and k: "conflict (st ! a) (st ! b)"
    unfolding conflict_in_def by blast
  from k consider "conflicting (label (st ! a)) (label (st ! b))"
    | "conflicting (is_initial (st ! a)) (is_initial (st ! b))"
    | "conflicting (is_terminal (st ! a)) (is_terminal (st ! b))"
    unfolding conflict_def by blast
  then show "clash label st S \<or> clash is_initial st S \<or> clash is_terminal st S"
  proof cases
    case 1
    from clashI [OF a b c this] show ?thesis by simp
  next
    case 2
    from clashI [OF a b c this] show ?thesis by simp
  next
    case 3
    from clashI [OF a b c this] show ?thesis by simp
  qed
next
  assume "clash label st S \<or> clash is_initial st S \<or> clash is_terminal st S"
  then consider "clash label st S" | "clash is_initial st S" | "clash is_terminal st S" by blast
  then show "conflict_in st S"
  proof cases
    case 1
    from clashD [OF this] show ?thesis unfolding conflict_in_def conflict_def by blast
  next
    case 2
    from clashD [OF this] show ?thesis unfolding conflict_in_def conflict_def by blast
  next
    case 3
    from clashD [OF this] show ?thesis unfolding conflict_in_def conflict_def by blast
  qed
qed

lemma gather_step_Code_new:
  "map_of tbl c = None \<Longrightarrow>
   gather_step (Code c) st tbl = (None, st @ [State c], tbl @ [(c, length st)])"
  by (simp add: gather_step_def State_def)

lemma gather_step_Code_old:
  assumes "map_of tbl c = Some b" and "b < length st" and "code (st ! b) = c"
  shows "gather_step (Code c) st tbl = (None, st @ [State c], tbl)"
proof -
  have n: "(st @ [State c]) ! b = st ! b" using assms(2) by (simp add: nth_append)
  have m: "merge_data (st ! b) (State c) = (None, st ! b)" using assms(3) by (rule merge_data_State)
  have u: "(st @ [State c])[b := st ! b] = st @ [State c]"
    using n by (metis list_update_id)
  have e: "(st @ [State c]) ! length st = State c" by simp
  have c: "code (State c) = c" by (simp add: State_def)
  show ?thesis
    unfolding gather_step_def by (simp add: e c assms(1) n m u)
qed

lemma gather_step_Ref_new:
  "map_of tbl (code (st ! a)) = None \<Longrightarrow>
   gather_step (Ref a) st tbl = (None, st, tbl @ [(code (st ! a), a)])"
  by (simp add: gather_step_def)

lemma gather_step_Ref_old:
  assumes "map_of tbl (code (st ! a)) = Some b"
  shows "gather_step (Ref a) st tbl =
           (fst (merge_data (st ! b) (st ! a)), st[b := snd (merge_data (st ! b) (st ! a))], tbl)"
  using assms by (simp add: gather_step_def split: prod.splits)

lemma vals_cong: "(\<And>a. a \<in> S \<Longrightarrow> st' ! a = st ! a) \<Longrightarrow> vals g st' S c = vals g st S c"
  by (auto simp: vals_def)

lemma vals_Un: "vals g st (S \<union> T) c = vals g st S c \<union> vals g st T c"
  by (auto simp: vals_def)

lemma vals_fresh: "g (st ! a) = None \<Longrightarrow> vals g st (insert a S) c = vals g st S c"
  by (auto simp: vals_def)

lemma vals_merge:
  assumes g: "attr_of g" and b: "b \<in> S" and bl: "b < length st"
    and c: "code (st ! a) = code (st ! b)" and n: "\<not> conflict (st ! b) (st ! a)"
  shows "vals g (st[b := merged (st ! b) (st ! a)]) S k = vals g st (insert a S) k"
proof -
  let ?st = "st[b := merged (st ! b) (st ! a)]"
  from g have gm: "g (merged (st ! b) (st ! a)) = non_null (g (st ! b)) (g (st ! a))"
    by (simp add: attr_of_def)
  from g n have nc: "\<not> conflicting (g (st ! b)) (g (st ! a))" by (simp add: attr_of_def)
  have nb: "?st ! b = merged (st ! b) (st ! a)" using bl by simp
  have no: "\<And>x. x \<noteq> b \<Longrightarrow> ?st ! x = st ! x" by simp
  have cb: "code (?st ! b) = code (st ! b)" by (simp add: nb code_merged)
  show ?thesis
  proof (intro set_eqI iffI)
    fix v assume "v \<in> vals g ?st S k"
    then obtain x where x: "x \<in> S" and cx: "code (?st ! x) = k" and gx: "g (?st ! x) = Some v"
      by (auto simp: vals_def)
    show "v \<in> vals g st (insert a S) k"
    proof (cases "x = b")
      case False
      with x cx gx no show ?thesis by (auto simp: vals_def)
    next
      case True
      with gx nb gm have nn: "non_null (g (st ! b)) (g (st ! a)) = Some v" by simp
      from True cx cb have kb: "code (st ! b) = k" by simp
      show ?thesis
      proof (cases "g (st ! b)")
        case None
        with nn have "g (st ! a) = Some v" by (simp add: non_null_def)
        with c kb show ?thesis by (auto simp: vals_def)
      next
        case (Some w)
        with nn have "g (st ! b) = Some v" by (simp add: non_null_def)
        with b kb show ?thesis by (auto simp: vals_def)
      qed
    qed
  next
    fix v assume "v \<in> vals g st (insert a S) k"
    then obtain x where x: "x = a \<or> x \<in> S" and cx: "code (st ! x) = k" and gx: "g (st ! x) = Some v"
      by (auto simp: vals_def)
    have viab: "code (st ! b) = k \<Longrightarrow> non_null (g (st ! b)) (g (st ! a)) = Some v \<Longrightarrow>
        v \<in> vals g ?st S k"
    proof -
      assume "code (st ! b) = k" and "non_null (g (st ! b)) (g (st ! a)) = Some v"
      with nb gm cb have "code (?st ! b) = k \<and> g (?st ! b) = Some v" by simp
      with b show ?thesis unfolding vals_def by blast
    qed
    show "v \<in> vals g ?st S k"
    proof (cases "x = b")
      case True
      with gx have "non_null (g (st ! b)) (g (st ! a)) = Some v" by (simp add: non_null_def)
      with True cx show ?thesis by (intro viab) simp_all
    next
      case xb: False
      show ?thesis
      proof (cases "x \<in> S")
        case True
        from xb no have "?st ! x = st ! x" by simp
        with cx gx have "code (?st ! x) = k \<and> g (?st ! x) = Some v" by simp
        with True show ?thesis unfolding vals_def by blast
      next
        case False
        with x have xa: "x = a" by simp
        with gx nc have "non_null (g (st ! b)) (g (st ! a)) = Some v"
          by (cases "g (st ! b)") (auto simp: non_null_def conflicting_def)
        with xa cx c show ?thesis by (intro viab) simp_all
      qed
    qed
  qed
qed


lemma refs_Cons_Code: "refs (Code c # vs) = refs vs"
  by (auto simp: refs_def)

lemma refs_Cons_Ref: "refs (Ref a # vs) = insert a (refs vs)"
  by (auto simp: refs_def)

lemma refs_Nil: "refs [] = {}"
  by (simp add: refs_def)

lemma refs_lt: "list_all (ref_ok st) vs \<Longrightarrow> a \<in> refs vs \<Longrightarrow> a < length st"
  by (auto simp: refs_def list_all_iff ref_ok_def)

lemma table_lt: "table_ok st tbl \<Longrightarrow> a \<in> snd ` set tbl \<Longrightarrow> a < length st"
  by (auto simp: table_ok_def list_all_iff)

lemma gather_step_Ref_merge:
  assumes t: "table_ok st tbl" and m: "map_of tbl (code (st ! a)) = Some b"
  shows "b \<in> snd ` set tbl" and "b < length st" and "code (st ! a) = code (st ! b)"
    and "conflict (st ! b) (st ! a) \<Longrightarrow>
           \<exists>msg. gather_step (Ref a) st tbl =
             (Some (ImproperlyConfigured msg), st[b := snd (merge_data (st ! b) (st ! a))], tbl)"
    and "\<not> conflict (st ! b) (st ! a) \<Longrightarrow>
           gather_step (Ref a) st tbl = (None, st[b := merged (st ! b) (st ! a)], tbl)"
proof -
  from m have "(code (st ! a), b) \<in> set tbl" by (rule map_of_SomeD)
  then show "b \<in> snd ` set tbl" by force
  from table_ok_map_of [OF t m] show bl: "b < length st" and c: "code (st ! a) = code (st ! b)"
    by simp_all
  from c have c': "code (st ! b) = code (st ! a)" by simp
  show "\<exists>msg. gather_step (Ref a) st tbl =
             (Some (ImproperlyConfigured msg), st[b := snd (merge_data (st ! b) (st ! a))], tbl)"
    if "conflict (st ! b) (st ! a)"
    using merge_data_conflict [OF c' that] by (auto simp: gather_step_Ref_old [OF m])
  show "gather_step (Ref a) st tbl = (None, st[b := merged (st ! b) (st ! a)], tbl)"
    if "\<not> conflict (st ! b) (st ! a)"
    using merge_data_ok [OF c' that] by (simp add: gather_step_Ref_old [OF m])
qed

lemma gather_step_vals:
  assumes g: "attr_of g" and t: "table_ok st tbl" and r: "list_all (ref_ok st) (v # vs)"
    and s: "gather_step v st tbl = (None, st', tbl')"
  shows "vals g st' (snd ` set tbl' \<union> refs vs) k = vals g st (snd ` set tbl \<union> refs (v # vs)) k"
proof (cases v)
  case (Code c)
  let ?S = "snd ` set tbl \<union> refs vs"
  from r have rvs: "list_all (ref_ok st) vs" by simp
  have agree: "\<And>a. a \<in> ?S \<Longrightarrow> (st @ [State c]) ! a = st ! a"
    using table_lt [OF t] refs_lt [OF rvs] by (auto simp: nth_append)
  have gs: "g ((st @ [State c]) ! length st) = None" using g by (simp add: attr_of_def)
  show ?thesis
  proof (cases "map_of tbl c")
    case None
    from s Code gather_step_Code_new [OF None, of st]
    have st': "st' = st @ [State c]" and tbl': "tbl' = tbl @ [(c, length st)]" by auto
    have "snd ` set tbl' \<union> refs vs = insert (length st) ?S" by (auto simp: tbl')
    then have "vals g st' (snd ` set tbl' \<union> refs vs) k = vals g (st @ [State c]) ?S k"
      using vals_fresh [of g "st @ [State c]" "length st" ?S k, OF gs] by (simp add: st')
    also have "\<dots> = vals g st ?S k" using agree by (rule vals_cong)
    finally show ?thesis by (simp add: Code refs_Cons_Code)
  next
    case (Some b)
    from table_ok_map_of [OF t Some] have "b < length st" "code (st ! b) = c" by simp_all
    from s Code gather_step_Code_old [OF Some this]
    have st': "st' = st @ [State c]" and tbl': "tbl' = tbl" by auto
    have "vals g (st @ [State c]) ?S k = vals g st ?S k" using agree by (rule vals_cong)
    then show ?thesis by (simp add: Code refs_Cons_Code st' tbl')
  qed
next
  case (Ref a)
  let ?S = "snd ` set tbl \<union> refs vs"
  show ?thesis
  proof (cases "map_of tbl (code (st ! a))")
    case None
    from s Ref gather_step_Ref_new [OF None]
    have st': "st' = st" and tbl': "tbl' = tbl @ [(code (st ! a), a)]" by auto
    have "snd ` set tbl' \<union> refs vs = snd ` set tbl \<union> refs (v # vs)"
      by (auto simp: tbl' Ref refs_Cons_Ref)
    then show ?thesis by (simp add: st')
  next
    case (Some b)
    note m = gather_step_Ref_merge [OF t Some]
    have nc: "\<not> conflict (st ! b) (st ! a)"
    proof
      assume "conflict (st ! b) (st ! a)"
      from m(4) [OF this] s Ref show False by auto
    qed
    from m(5) [OF nc] s Ref have st': "st' = st[b := merged (st ! b) (st ! a)]" and tbl': "tbl' = tbl"
      by auto
    from m(1) have bS: "b \<in> ?S" by simp
    from vals_merge [OF g bS m(2) m(3) nc, of k]
    have "vals g st' ?S k = vals g st (insert a ?S) k" by (simp add: st')
    moreover have "insert a ?S = snd ` set tbl \<union> refs (v # vs)" by (auto simp: Ref refs_Cons_Ref)
    ultimately show ?thesis by (simp add: tbl')
  qed
qed

lemma gather_step_fail:
  assumes t: "table_ok st tbl" and s: "gather_step v st tbl = (Some e, st', tbl')"
  shows "(\<exists>msg. e = ImproperlyConfigured msg) \<and> conflict_in st (snd ` set tbl \<union> refs (v # vs))"
proof (cases v)
  case (Code c)
  show ?thesis
  proof (cases "map_of tbl c")
    case None
    from s Code gather_step_Code_new [OF None, of st] show ?thesis by simp
  next
    case (Some b)
    from table_ok_map_of [OF t Some] have "b < length st" "code (st ! b) = c" by simp_all
    from s Code gather_step_Code_old [OF Some this] show ?thesis by simp
  qed
next
  case (Ref a)
  show ?thesis
  proof (cases "map_of tbl (code (st ! a))")
    case None
    from s Ref gather_step_Ref_new [OF None] show ?thesis by simp
  next
    case (Some b)
    note m = gather_step_Ref_merge [OF t Some]
    have c: "conflict (st ! b) (st ! a)"
    proof (rule ccontr)
      assume "\<not> conflict (st ! b) (st ! a)"
      from m(5) [OF this] s Ref show False by simp
    qed
    from m(4) [OF c] s Ref have "\<exists>msg. e = ImproperlyConfigured msg" by auto
    moreover have "conflict_in st (snd ` set tbl \<union> refs (v # vs))"
      unfolding conflict_in_def
      using m(1) m(3) c by (intro bexI [of _ b] bexI [of _ a]) (simp_all add: Ref refs_Cons_Ref)
    ultimately show ?thesis by simp
  qed
qed

lemma gather_step_keys:
  assumes t: "table_ok st tbl" and r: "ref_ok st v" and s: "gather_step v st tbl = (e, st', tbl')"
  shows "fst ` set tbl' = insert (code_of st v) (fst ` set tbl)"
    and "distinct (map fst tbl) \<Longrightarrow> distinct (map fst tbl')"
proof -
  obtain a st1 where w: "wrap st v = (a, st1)" by (cases "wrap st v")
  from wrap_ext [OF w r] have c: "code (st1 ! a) = code_of st v" by simp
  have "fst ` set tbl' = insert (code_of st v) (fst ` set tbl) \<and>
        (distinct (map fst tbl) \<longrightarrow> distinct (map fst tbl'))"
  proof (cases "map_of tbl (code_of st v)")
    case None
    with s w c have "tbl' = tbl @ [(code_of st v, a)]" by (auto simp: gather_step_def)
    moreover from None have "code_of st v \<notin> fst ` set tbl" by (simp add: map_of_eq_None_iff)
    ultimately show ?thesis by auto
  next
    case (Some b)
    with s w c have "tbl' = tbl" by (auto simp: gather_step_def split: prod.splits)
    moreover from Some have "code_of st v \<in> fst ` set tbl" by (force dest: map_of_SomeD)
    ultimately show ?thesis by auto
  qed
  then show "fst ` set tbl' = insert (code_of st v) (fst ` set tbl)"
    and "distinct (map fst tbl) \<Longrightarrow> distinct (map fst tbl')" by simp_all
qed


lemma clash_cong: "(\<And>k. vals g st' S' k = vals g st S k) \<Longrightarrow> clash g st' S' = clash g st S"
  by (simp add: clash_def)

lemma gather_step_conflict_in:
  assumes t: "table_ok st tbl" and r: "list_all (ref_ok st) (v # vs)"
    and s: "gather_step v st tbl = (None, st', tbl')"
  shows "conflict_in st' (snd ` set tbl' \<union> refs vs) = conflict_in st (snd ` set tbl \<union> refs (v # vs))"
  unfolding conflict_in_clash
  using clash_cong [OF gather_step_vals [OF attr_of_label t r s]]
    clash_cong [OF gather_step_vals [OF attr_of_is_initial t r s]]
    clash_cong [OF gather_step_vals [OF attr_of_is_terminal t r s]]
  by simp

lemma table_no_conflict:
  assumes t: "table_ok st tbl" and d: "distinct (map fst tbl)"
  shows "\<not> conflict_in st (snd ` set tbl)"
proof
  assume "conflict_in st (snd ` set tbl)"
  then obtain a b ca cb where a: "(ca, a) \<in> set tbl" and b: "(cb, b) \<in> set tbl"
    and c: "code (st ! a) = code (st ! b)" and k: "conflict (st ! a) (st ! b)"
    by (auto simp: conflict_in_def)
  from t a b have "code (st ! a) = ca" "code (st ! b) = cb"
    by (auto simp: table_ok_def list_all_iff)
  with c have "ca = cb" by simp
  with d a b have "a = b" by (auto dest: eq_key_imp_eq_value)
  with k show False by (simp add: conflict_irrefl)
qed

lemma gather_conflict:
  assumes "table_ok st tbl" and "list_all (ref_ok st) vs" and "distinct (map fst tbl)"
    and "gather vs st tbl = (r, st', tbl')"
  shows "(r \<noteq> None) = conflict_in st (snd ` set tbl \<union> refs vs) \<and>
         (\<forall>e. r = Some e \<longrightarrow> (\<exists>msg. e = ImproperlyConfigured msg))"
  using assms
proof (induction vs arbitrary: st tbl)
  case Nil
  then show ?case by (simp add: refs_Nil table_no_conflict)
next
  case (Cons v vs)
  obtain r1 st1 tbl1 where s: "gather_step v st tbl = (r1, st1, tbl1)"
    by (cases "gather_step v st tbl") auto
  from Cons.prems(2) have rv: "ref_ok st v" and rvs: "list_all (ref_ok st) vs" by simp_all
  from gather_step_inv [OF Cons.prems(1) rv s] have e1: "ext st st1" and t1: "table_ok st1 tbl1"
    by simp_all
  show ?case
  proof (cases r1)
    case None
    with Cons.prems(4) s have g: "gather vs st1 tbl1 = (r, st', tbl')" by simp
    have r1: "list_all (ref_ok st1) vs" using rvs e1 by (rule ext_refs_ok)
    have d1: "distinct (map fst tbl1)"
      using gather_step_keys(2) [OF Cons.prems(1) rv s Cons.prems(3)] .
    from s None have s': "gather_step v st tbl = (None, st1, tbl1)" by simp
    from Cons.IH [OF t1 r1 d1 g] gather_step_conflict_in [OF Cons.prems(1) Cons.prems(2) s']
    show ?thesis by simp
  next
    case (Some e)
    with Cons.prems(4) s have "r = Some e" by simp
    moreover from s Some have "gather_step v st tbl = (Some e, st1, tbl1)" by simp
    from gather_step_fail [OF Cons.prems(1) this, of vs]
    have "(\<exists>msg. e = ImproperlyConfigured msg) \<and> conflict_in st (snd ` set tbl \<union> refs (v # vs))" .
    ultimately show ?thesis by simp
  qed
qed

lemma gather_success:
  assumes "table_ok st tbl" and "list_all (ref_ok st) vs" and "distinct (map fst tbl)"
    and "gather vs st tbl = (None, st', tbl')"
  shows "distinct (map fst tbl') \<and> fst ` set tbl' = fst ` set tbl \<union> code_of st ` set vs \<and>
         (attr_of g \<longrightarrow> (\<forall>k. vals g st' (snd ` set tbl') k = vals g st (snd ` set tbl \<union> refs vs) k))"
  using assms
proof (induction vs arbitrary: st tbl)
  case Nil
  then show ?case by (simp add: refs_Nil)
next
  case (Cons v vs)
  obtain r1 st1 tbl1 where s: "gather_step v st tbl = (r1, st1, tbl1)"
    by (cases "gather_step v st tbl") auto
  from Cons.prems(4) s have r1: "r1 = None" by (cases r1) simp_all
  with Cons.prems(4) s have g: "gather vs st1 tbl1 = (None, st', tbl')" by simp
  from s r1 have s': "gather_step v st tbl = (None, st1, tbl1)" by simp
  from Cons.prems(2) have rv: "ref_ok st v" and rvs: "list_all (ref_ok st) vs" by simp_all
  from gather_step_inv [OF Cons.prems(1) rv s] have e1: "ext st st1" and t1: "table_ok st1 tbl1"
    by simp_all
  have rs1: "list_all (ref_ok st1) vs" using rvs e1 by (rule ext_refs_ok)
  have d1: "distinct (map fst tbl1)"
    using gather_step_keys(2) [OF Cons.prems(1) rv s Cons.prems(3)] .
  have k1: "fst ` set tbl1 = insert (code_of st v) (fst ` set tbl)"
    using gather_step_keys(1) [OF Cons.prems(1) rv s] .
  have "\<And>x. x \<in> set vs \<Longrightarrow> code_of st1 x = code_of st x"
    using rvs e1 by (auto simp: list_all_iff intro: ext_code_of)
  then have co: "code_of st1 ` set vs = code_of st ` set vs"
    by (rule image_cong [OF refl])
  note ih = Cons.IH [OF t1 rs1 d1 g]
  from ih have "distinct (map fst tbl')" by simp
  moreover from ih k1 co have "fst ` set tbl' = fst ` set tbl \<union> code_of st ` set (v # vs)" by auto
  moreover have "attr_of g \<longrightarrow> (\<forall>k. vals g st' (snd ` set tbl') k = vals g st (snd ` set tbl \<union> refs (v # vs)) k)"
  proof (intro impI allI)
    fix k assume a: "attr_of g"
    with ih have "vals g st' (snd ` set tbl') k = vals g st1 (snd ` set tbl1 \<union> refs vs) k" by simp
    also have "\<dots> = vals g st (snd ` set tbl \<union> refs (v # vs)) k"
      using gather_step_vals [OF a Cons.prems(1) Cons.prems(2) s'] .
    finally show "vals g st' (snd ` set tbl') k = vals g st (snd ` set tbl \<union> refs (v # vs)) k" .
  qed
  ultimately show ?case by simp
qed

section \<open>Initial states\<close>

lemma py_member_iff: "py_member st v xs = (code_of st v \<in> code_of st ` set xs)"
proof -
  have "py_member st v xs = (\<exists>w\<in>set xs. code_of st w = code_of st v)"
    by (simp add: py_member_def list_ex_iff py_eq_code_of)
  also have "\<dots> = (code_of st v \<in> code_of st ` set xs)"
    unfolding image_iff by (rule bex_cong [OF refl]) auto
  finally show ?thesis .
qed

lemma py_set_fold:
  assumes "distinct (map (code_of st) acc)"
  shows "distinct (map (code_of st) (fold (\<lambda>v acc. if py_member st v acc then acc else acc @ [v]) xs acc)) \<and>
         code_of st ` set (fold (\<lambda>v acc. if py_member st v acc then acc else acc @ [v]) xs acc) =
           code_of st ` set acc \<union> code_of st ` set xs \<and>
         set (fold (\<lambda>v acc. if py_member st v acc then acc else acc @ [v]) xs acc) \<subseteq> set acc \<union> set xs"
  using assms
proof (induction xs arbitrary: acc)
  case Nil
  then show ?case by simp
next
  case (Cons v xs)
  show ?case
  proof (cases "py_member st v acc")
    case True
    then have "code_of st v \<in> code_of st ` set acc" by (simp add: py_member_iff)
    with Cons.IH [OF Cons.prems] True show ?thesis by auto
  next
    case False
    then have n: "code_of st v \<notin> code_of st ` set acc" by (simp add: py_member_iff)
    with Cons.prems have "distinct (map (code_of st) (acc @ [v]))" by simp
    from Cons.IH [OF this] False show ?thesis by auto
  qed
qed

lemma py_set_codes:
  "distinct (map (code_of st) (py_set st xs))"
  "code_of st ` set (py_set st xs) = code_of st ` set xs"
  using py_set_fold [of st "[]" xs] by (simp_all add: py_set_def)

lemma py_set_minus_codes:
  shows "distinct (map (code_of st) xs) \<Longrightarrow> distinct (map (code_of st) (py_set_minus st xs ys))"
    and "code_of st ` set (py_set_minus st xs ys) = code_of st ` set xs - code_of st ` set ys"
  by (auto simp: py_set_minus_def py_member_iff distinct_map_filter)

lemma deduce_initial_states_codes:
  "distinct (map (code_of st) (deduce_initial_states st tr))"
  "code_of st ` set (deduce_initial_states st tr) =
     code_of st ` set (map fst tr) - code_of st ` set (right_side tr)"
  unfolding deduce_initial_states_def
  by (simp_all add: py_set_minus_codes py_set_codes)

lemma deduce_terminal_states_codes:
  "code_of st ` set (deduce_terminal_states st tr) =
     code_of st ` set (right_side tr) - code_of st ` set (map fst tr)"
  unfolding deduce_terminal_states_def
  by (simp_all add: py_set_minus_codes py_set_codes)

lemma same_length: "distinct xs \<Longrightarrow> distinct ys \<Longrightarrow> set xs = set ys \<Longrightarrow> length xs = length ys"
  by (metis distinct_card)

lemma deduced_length:
  assumes r: "list_all (ref_ok st) (items tr)" and e: "ext st st'"
  shows "length (deduce_initial_states st' tr) = length (deduced_initials st tr)"
    and "set (map (code_of st') (deduce_initial_states st' tr)) = set (deduced_initials st tr)"
proof -
  have same: "\<And>v. v \<in> set (items tr) \<Longrightarrow> code_of st' v = code_of st v"
    using r e by (auto simp: list_all_iff intro: ext_code_of)
  have k: "code_of st' ` set (map fst tr) = code_of st ` set (map fst tr)"
    by (rule image_cong [OF refl]) (simp add: same items_def)
  have rs: "code_of st' ` set (right_side tr) = code_of st ` set (right_side tr)"
    by (rule image_cong [OF refl]) (simp add: same items_def)
  show s: "set (map (code_of st') (deduce_initial_states st' tr)) = set (deduced_initials st tr)"
    using deduce_initial_states_codes(2) [of st' tr] k rs
    by (auto simp: deduced_initials_def)
  have "length (map (code_of st') (deduce_initial_states st' tr)) = length (deduced_initials st tr)"
    using deduce_initial_states_codes(1) [of st' tr] s
    by (intro same_length) (simp_all add: deduced_initials_def)
  then show "length (deduce_initial_states st' tr) = length (deduced_initials st tr)" by simp
qed


lemma py_set_subset: "set (py_set st xs) \<subseteq> set xs"
  using py_set_fold [of st "[]" xs] by (simp add: py_set_def)

lemma deduce_subset:
  "set (deduce_initial_states st tr) \<subseteq> set (items tr)"
  "set (deduce_terminal_states st tr) \<subseteq> set (items tr)"
  using py_set_subset [of st "map fst tr"] py_set_subset [of st "right_side tr"]
  by (auto simp: deduce_initial_states_def deduce_terminal_states_def py_set_minus_def items_def)

lemma declared_set_gen:
  "set (List.map_filter (\<lambda>v. case v of Ref a \<Rightarrow> Some (st ! a) | Code c \<Rightarrow> None) vs) =
     (\<lambda>a. st ! a) ` refs vs"
proof (induction vs)
  case Nil
  then show ?case by (simp add: map_filter_simps refs_Nil)
next
  case (Cons v vs)
  then show ?case
    by (cases v) (simp_all add: map_filter_simps refs_Cons_Code refs_Cons_Ref)
qed

lemma declared_set: "set (declared st tr) = (\<lambda>a. st ! a) ` refs (items tr)"
  by (simp add: declared_def declared_set_gen)

lemma merge_conflict_iff: "merge_conflict st tr = conflict_in st (refs (items tr))"
  by (simp add: merge_conflict_def conflict_in_def declared_set)

lemma explicit_initials_set:
  "set (explicit_initials st tr) = {c. True \<in> vals is_initial st (refs (items tr)) c}"
  by (auto simp: explicit_initials_def declared_set vals_def truthy_def)

lemma table_vals:
  assumes t: "table_ok st tbl"
  shows "(\<exists>a. (c, a) \<in> set tbl \<and> g (st ! a) = Some v) = (v \<in> vals g st (snd ` set tbl) c)"
proof
  assume "\<exists>a. (c, a) \<in> set tbl \<and> g (st ! a) = Some v"
  then obtain a where a: "(c, a) \<in> set tbl" and g: "g (st ! a) = Some v" by blast
  from t a have "code (st ! a) = c" by (auto simp: table_ok_def list_all_iff)
  moreover from a have "a \<in> snd ` set tbl" by force
  ultimately show "v \<in> vals g st (snd ` set tbl) c" using g unfolding vals_def by blast
next
  assume "v \<in> vals g st (snd ` set tbl) c"
  then obtain a where a: "a \<in> snd ` set tbl" and c: "code (st ! a) = c" and g: "g (st ! a) = Some v"
    unfolding vals_def by blast
  from a obtain c' where c': "(c', a) \<in> set tbl" by auto
  with t have "code (st ! a) = c'" by (auto simp: table_ok_def list_all_iff)
  with c c' have "(c, a) \<in> set tbl" by simp
  with g show "\<exists>a. (c, a) \<in> set tbl \<and> g (st ! a) = Some v" by blast
qed

lemma mark_ok:
  assumes "table_ok st tbl" and "\<And>s. code (f s) = code s"
    and "\<forall>v\<in>set vs. ref_ok st v \<and> code_of st v \<in> fst ` set tbl"
  shows "fst (mark f tbl vs st) = None"
  using assms
proof (induction vs arbitrary: st)
  case Nil
  then show ?case by simp
next
  case (Cons v vs)
  from Cons.prems(3) have "code_of st v \<in> fst ` set tbl" by simp
  then obtain b where m: "map_of tbl (code_of st v) = Some b"
    by (cases "map_of tbl (code_of st v)") (auto simp: map_of_eq_None_iff)
  from table_ok_map_of [OF Cons.prems(1) m] have b: "b < length st" by simp
  have e: "ext st (st[b := f (st ! b)])" using b Cons.prems(2) by (intro update_ext) simp_all
  have t: "table_ok (st[b := f (st ! b)]) tbl" using Cons.prems(1) e by (rule ext_table_ok)
  have "\<forall>w\<in>set vs. ref_ok (st[b := f (st ! b)]) w \<and> code_of (st[b := f (st ! b)]) w \<in> fst ` set tbl"
  proof
    fix w assume "w \<in> set vs"
    with Cons.prems(3) have r: "ref_ok st w" and k: "code_of st w \<in> fst ` set tbl" by simp_all
    from ext_ref_ok [OF r e] ext_code_of [OF r e] k
    show "ref_ok (st[b := f (st ! b)]) w \<and> code_of (st[b := f (st ! b)]) w \<in> fst ` set tbl"
      by simp
  qed
  from Cons.IH [OF t Cons.prems(2) this] m show ?case by (simp add: table_get_map_of)
qed

lemma mark_preserves:
  assumes "\<And>s. g (f s) = g s" and "mark f tbl vs st = (r, st')"
  shows "g (st' ! a) = g (st ! a)"
  using assms(2)
proof (induction vs arbitrary: st)
  case Nil
  then show ?case by simp
next
  case (Cons v vs)
  show ?case
  proof (cases "table_get st tbl v")
    case None
    with Cons.prems show ?thesis by simp
  next
    case (Some b)
    with Cons.prems have "mark f tbl vs (st[b := f (st ! b)]) = (r, st')" by simp
    from Cons.IH [OF this] have "g (st' ! a) = g (st[b := f (st ! b)] ! a)" .
    also have "\<dots> = g (st ! a)"
      by (cases "b < length st") (simp_all add: nth_list_update assms(1) list_update_beyond)
    finally show ?thesis .
  qed
qed

lemma filter_key_single:
  assumes "distinct (map fst xs)" and "c0 \<in> fst ` set xs"
  shows "map fst (filter (\<lambda>(c, a). c = c0) xs) = [c0]"
  using assms
proof (induction xs)
  case Nil
  then show ?case by simp
next
  case (Cons x xs)
  obtain c a where x: "x = (c, a)" by (cases x)
  show ?case
  proof (cases "c = c0")
    case True
    with Cons.prems(1) x have "c0 \<notin> fst ` set xs" by auto
    then have "filter (\<lambda>(c, a). c = c0) xs = []" by (force simp: filter_empty_conv)
    with True x show ?thesis by simp
  next
    case False
    with Cons x show ?thesis by auto
  qed
qed

lemma distinct_singleton:
  assumes "distinct xs" and "set xs = {x}"
  shows "xs = [x]"
proof (cases xs)
  case Nil
  with assms(2) show ?thesis by simp
next
  case (Cons y ys)
  with assms(2) have y: "y = x" by auto
  from Cons assms y have "x \<notin> set ys" and "set ys \<subseteq> {x}" by auto
  then have "ys = []" by (cases ys) auto
  with Cons y show ?thesis by simp
qed


lemma states_build_failed:
  assumes "gather (items tr) st [] = (Some e, st1, tbl1)"
  shows "states_build tr st = (Some e, st1, tbl1)"
  using assms by (simp add: states_build_def items_def)

lemma states_build_count:
  assumes "gather (items tr) st [] = (None, st1, tbl1)"
    and "length (initials_for st1 tbl1 tr) \<noteq> 1"
  shows "states_build tr st =
           (Some (ImproperlyConfigured ''Must define exactly 1 initial state.''), st1, tbl1)"
  using assms by (simp add: states_build_def items_def initials_for_def Let_def)

lemma states_build_marked:
  assumes "gather (items tr) st [] = (None, st1, tbl1)"
    and "length (initials_for st1 tbl1 tr) = 1"
    and "mark (\<lambda>s. s\<lparr>is_initial := Some True\<rparr>) tbl1 (initials_for st1 tbl1 tr) st1 = (None, st2)"
    and "mark (\<lambda>s. s\<lparr>is_terminal := Some True\<rparr>) tbl1 (terminals_for st1 tbl1 tr) st2 = (e, st3)"
  shows "states_build tr st = (e, st3, tbl1)"
  using assms by (simp add: states_build_def items_def initials_for_def terminals_for_def Let_def)

lemma gather_items:
  assumes r: "list_all (ref_ok st) (items tr)" and g: "gather (items tr) st [] = (r1, st1, tbl1)"
  shows "ext st st1" and "table_ok st1 tbl1"
    and "(r1 \<noteq> None) = merge_conflict st tr"
    and "\<forall>e. r1 = Some e \<longrightarrow> (\<exists>msg. e = ImproperlyConfigured msg)"
    and "r1 = None \<Longrightarrow> distinct (map fst tbl1)"
    and "r1 = None \<Longrightarrow> fst ` set tbl1 = code_of st ` set (items tr)"
    and "r1 = None \<Longrightarrow>
           set (map fst (filter (\<lambda>(c, a). truthy (is_initial (st1 ! a))) tbl1)) =
           set (explicit_initials st tr)"
proof -
  have t0: "table_ok st []" by (simp add: table_ok_def)
  have d0: "distinct (map fst ([] :: 'a table))" by simp
  from gather_inv [OF t0 r g] show e: "ext st st1" and t1: "table_ok st1 tbl1" by simp_all
  from gather_conflict [OF t0 r d0 g]
  show "(r1 \<noteq> None) = merge_conflict st tr"
    and "\<forall>e. r1 = Some e \<longrightarrow> (\<exists>msg. e = ImproperlyConfigured msg)"
    by (simp_all add: merge_conflict_iff)
  {
    assume n: "r1 = None"
    with g have g': "gather (items tr) st [] = (None, st1, tbl1)" by simp
    note s = gather_success [OF t0 r d0 g', of is_initial]
    from s show "distinct (map fst tbl1)" by simp
    from s show "fst ` set tbl1 = code_of st ` set (items tr)" by simp
    from s attr_of_is_initial
    have v: "\<And>k. vals is_initial st1 (snd ` set tbl1) k = vals is_initial st (refs (items tr)) k"
      by (simp add: refs_Nil) blast
    show "set (map fst (filter (\<lambda>(c, a). truthy (is_initial (st1 ! a))) tbl1)) =
           set (explicit_initials st tr)"
    proof (intro set_eqI)
      fix c
      have "c \<in> set (map fst (filter (\<lambda>(c, a). truthy (is_initial (st1 ! a))) tbl1)) =
            (\<exists>a. (c, a) \<in> set tbl1 \<and> is_initial (st1 ! a) = Some True)"
        by (force simp: truthy_def)
      also have "\<dots> = (True \<in> vals is_initial st1 (snd ` set tbl1) c)"
        by (rule table_vals [OF t1])
      also have "\<dots> = (c \<in> set (explicit_initials st tr))"
        by (simp add: v explicit_initials_set)
      finally show "c \<in> set (map fst (filter (\<lambda>(c, a). truthy (is_initial (st1 ! a))) tbl1)) =
            (c \<in> set (explicit_initials st tr))" .
    qed
  }
qed

lemma table_refs_ok:
  assumes t: "table_ok st tbl"
  shows "\<forall>v\<in>set (map (Ref \<circ> snd) (filter P tbl)). ref_ok st v \<and> code_of st v \<in> fst ` set tbl"
  using t by (force simp: table_ok_def list_all_iff ref_ok_def code_of_def)

lemma items_refs_ok:
  assumes r: "list_all (ref_ok st) (items tr)" and e: "ext st st'"
    and k: "fst ` set tbl = code_of st ` set (items tr)" and s: "set vs \<subseteq> set (items tr)"
  shows "\<forall>v\<in>set vs. ref_ok st' v \<and> code_of st' v \<in> fst ` set tbl"
proof
  fix v assume "v \<in> set vs"
  with s have i: "v \<in> set (items tr)" by auto
  with r have ro: "ref_ok st v" by (simp add: list_all_iff)
  from ext_ref_ok [OF ro e] ext_code_of [OF ro e] i k
  show "ref_ok st' v \<and> code_of st' v \<in> fst ` set tbl" by simp
qed

lemma selected_ok:
  assumes r: "list_all (ref_ok st) (items tr)" and e: "ext st st'" and t: "table_ok st' tbl"
    and k: "fst ` set tbl = code_of st ` set (items tr)"
  shows "\<forall>v\<in>set (initials_for st' tbl tr). ref_ok st' v \<and> code_of st' v \<in> fst ` set tbl"
    and "\<forall>v\<in>set (terminals_for st' tbl tr). ref_ok st' v \<and> code_of st' v \<in> fst ` set tbl"
proof -
  show "\<forall>v\<in>set (initials_for st' tbl tr). ref_ok st' v \<and> code_of st' v \<in> fst ` set tbl"
  proof (cases "filter (\<lambda>(c, a). truthy (is_initial (st' ! a))) tbl = []")
    case True
    then have "initials_for st' tbl tr = deduce_initial_states st' tr"
      by (simp add: initials_for_def)
    with items_refs_ok [OF r e k deduce_subset(1)] show ?thesis by simp
  next
    case False
    then have "initials_for st' tbl tr =
        map (Ref \<circ> snd) (filter (\<lambda>(c, a). truthy (is_initial (st' ! a))) tbl)"
      by (simp add: initials_for_def)
    with table_refs_ok [OF t] show ?thesis by simp
  qed
  show "\<forall>v\<in>set (terminals_for st' tbl tr). ref_ok st' v \<and> code_of st' v \<in> fst ` set tbl"
  proof (cases "filter (\<lambda>(c, a). truthy (is_terminal (st' ! a))) tbl = []")
    case True
    then have "terminals_for st' tbl tr = deduce_terminal_states st' tr"
      by (simp add: terminals_for_def)
    with items_refs_ok [OF r e k deduce_subset(2)] show ?thesis by simp
  next
    case False
    then have "terminals_for st' tbl tr =
        map (Ref \<circ> snd) (filter (\<lambda>(c, a). truthy (is_terminal (st' ! a))) tbl)"
      by (simp add: terminals_for_def)
    with table_refs_ok [OF t] show ?thesis by simp
  qed
qed

lemma initial_set_distinct: "distinct (initial_set st tr)"
  by (simp add: initial_set_def explicit_initials_def deduced_initials_def)

lemma table_filter_codes:
  assumes t: "table_ok st tbl"
  shows "map (code_of st) (map (Ref \<circ> snd) (filter P tbl)) = map fst (filter P tbl)"
proof -
  have "\<And>x. x \<in> set (filter P tbl) \<Longrightarrow> code_of st (Ref (snd x)) = fst x"
    using t by (auto simp: table_ok_def list_all_iff code_of_def)
  then show ?thesis by (simp add: comp_def cong: map_cong)
qed

lemma initials_for_codes:
  assumes r: "list_all (ref_ok st) (items tr)" and g: "gather (items tr) st [] = (None, st1, tbl1)"
  shows "distinct (map (code_of st1) (initials_for st1 tbl1 tr))"
    and "set (map (code_of st1) (initials_for st1 tbl1 tr)) = set (initial_set st tr)"
    and "filter (\<lambda>(c, a). truthy (is_initial (st1 ! a))) tbl1 \<noteq> [] \<Longrightarrow>
           map (code_of st1) (initials_for st1 tbl1 tr) =
           map fst (filter (\<lambda>(c, a). truthy (is_initial (st1 ! a))) tbl1)"
    and "filter (\<lambda>(c, a). truthy (is_initial (st1 ! a))) tbl1 = [] \<Longrightarrow>
           \<forall>(c, a)\<in>set tbl1. \<not> truthy (is_initial (st1 ! a))"
proof -
  note F = gather_items [OF r g]
  let ?E = "filter (\<lambda>(c, a). truthy (is_initial (st1 ! a))) tbl1"
  have se: "set (map fst ?E) = set (explicit_initials st tr)" using F(7) by simp
  have d: "distinct (map fst tbl1)" using F(5) by simp
  have "distinct (map (code_of st1) (initials_for st1 tbl1 tr)) \<and>
        set (map (code_of st1) (initials_for st1 tbl1 tr)) = set (initial_set st tr)"
  proof (cases "?E = []")
    case True
    then have i: "initials_for st1 tbl1 tr = deduce_initial_states st1 tr"
      by (simp add: initials_for_def)
    from True se have "explicit_initials st tr = []" by simp
    then have "initial_set st tr = deduced_initials st tr" by (simp add: initial_set_def)
    with i deduced_length(2) [OF r F(1)] deduce_initial_states_codes(1) [of st1 tr]
    show ?thesis by simp
  next
    case False
    then have i: "initials_for st1 tbl1 tr = map (Ref \<circ> snd) ?E"
      by (simp add: initials_for_def)
    from False se have "explicit_initials st tr \<noteq> []" by (cases ?E) auto
    then have "initial_set st tr = explicit_initials st tr" by (simp add: initial_set_def)
    moreover have m: "map (code_of st1) (initials_for st1 tbl1 tr) = map fst ?E"
      unfolding i by (rule table_filter_codes [OF F(2)])
    moreover have "distinct (map fst ?E)" by (rule distinct_map_filter [OF d])
    ultimately show ?thesis using se by (simp only:)
  qed
  then show "distinct (map (code_of st1) (initials_for st1 tbl1 tr))"
    and "set (map (code_of st1) (initials_for st1 tbl1 tr)) = set (initial_set st tr)"
    by simp_all
  show "map (code_of st1) (initials_for st1 tbl1 tr) = map fst ?E" if "?E \<noteq> []"
  proof -
    from that have "initials_for st1 tbl1 tr = map (Ref \<circ> snd) ?E"
      by (simp add: initials_for_def)
    then show ?thesis
      by (simp only:) (rule table_filter_codes [OF F(2)])
  qed
  show "\<forall>(c, a)\<in>set tbl1. \<not> truthy (is_initial (st1 ! a))" if "?E = []"
    using that by (auto simp: filter_empty_conv)
qed

lemma initials_for_length:
  assumes r: "list_all (ref_ok st) (items tr)" and g: "gather (items tr) st [] = (None, st1, tbl1)"
  shows "length (initials_for st1 tbl1 tr) = length (initial_set st tr)"
proof -
  from initials_for_codes(1,2) [OF r g] initial_set_distinct [of st tr]
  have "length (map (code_of st1) (initials_for st1 tbl1 tr)) = length (initial_set st tr)"
    by (intro same_length)
  then show ?thesis by simp
qed


lemma states_build_success:
  assumes r: "list_all (ref_ok st) (items tr)" and g: "gather (items tr) st [] = (None, st1, tbl1)"
    and l: "length (initials_for st1 tbl1 tr) = 1"
  shows "\<exists>st3. states_build tr st = (None, st3, tbl1) \<and>
           map fst (filter (\<lambda>(c, a). truthy (is_initial (st3 ! a))) tbl1) = initial_set st tr"
proof -
  note F = gather_items [OF r g]
  have d: "distinct (map fst tbl1)" using F(5) by simp
  have k: "fst ` set tbl1 = code_of st ` set (items tr)" using F(6) by simp
  from l obtain v0 where I: "initials_for st1 tbl1 tr = [v0]"
    by (cases "initials_for st1 tbl1 tr") auto
  define c0 where "c0 = code_of st1 v0"
  from selected_ok(1) [OF r F(1) F(2) k] I have c0k: "c0 \<in> fst ` set tbl1"
    by (simp add: c0_def)
  then obtain b where m: "map_of tbl1 c0 = Some b"
    by (cases "map_of tbl1 c0") (auto simp: map_of_eq_None_iff)
  from table_ok_map_of [OF F(2) m] have bl: "b < length st1" and cb: "code (st1 ! b) = c0"
    by simp_all
  define st2 where "st2 = st1[b := (st1 ! b)\<lparr>is_initial := Some True\<rparr>]"
  have m1: "mark (\<lambda>s. s\<lparr>is_initial := Some True\<rparr>) tbl1 (initials_for st1 tbl1 tr) st1 = (None, st2)"
    using m by (simp add: I table_get_map_of c0_def [symmetric] st2_def)
  have e2: "ext st1 st2" unfolding st2_def using bl by (intro update_ext) simp_all
  have t2: "table_ok st2 tbl1" using F(2) e2 by (rule ext_table_ok)
  have tm: "\<forall>v\<in>set (terminals_for st1 tbl1 tr). ref_ok st2 v \<and> code_of st2 v \<in> fst ` set tbl1"
  proof
    fix v assume "v \<in> set (terminals_for st1 tbl1 tr)"
    with selected_ok(2) [OF r F(1) F(2) k]
    have ro: "ref_ok st1 v" and ck: "code_of st1 v \<in> fst ` set tbl1" by simp_all
    from ext_ref_ok [OF ro e2] ext_code_of [OF ro e2] ck
    show "ref_ok st2 v \<and> code_of st2 v \<in> fst ` set tbl1" by simp
  qed
  have "fst (mark (\<lambda>s. s\<lparr>is_terminal := Some True\<rparr>) tbl1 (terminals_for st1 tbl1 tr) st2) = None"
    using t2 _ tm by (rule mark_ok) simp
  then obtain st3 where
    m2: "mark (\<lambda>s. s\<lparr>is_terminal := Some True\<rparr>) tbl1 (terminals_for st1 tbl1 tr) st2 = (None, st3)"
    by (cases "mark (\<lambda>s. s\<lparr>is_terminal := Some True\<rparr>) tbl1 (terminals_for st1 tbl1 tr) st2") auto
  from states_build_marked [OF g l m1 m2] have sb: "states_build tr st = (None, st3, tbl1)" .
  have i3: "\<And>a. is_initial (st3 ! a) = is_initial (st2 ! a)"
    by (rule mark_preserves [OF _ m2]) simp
  have i2: "\<And>a. is_initial (st2 ! a) = (if a = b then Some True else is_initial (st1 ! a))"
    using bl by (simp add: st2_def nth_list_update)
  have codes: "map (code_of st1) (initials_for st1 tbl1 tr) = [c0]" by (simp add: I c0_def)
  have only: "c = c0" if ca: "(c, a) \<in> set tbl1" and tr: "truthy (is_initial (st1 ! a))" for c a
  proof (cases "filter (\<lambda>(c, a). truthy (is_initial (st1 ! a))) tbl1 = []")
    case True
    from initials_for_codes(4) [OF r g True] ca tr show ?thesis by auto
  next
    case False
    from initials_for_codes(3) [OF r g False] codes
    have "map fst (filter (\<lambda>(c, a). truthy (is_initial (st1 ! a))) tbl1) = [c0]" by simp
    moreover from ca tr have "c \<in> set (map fst (filter (\<lambda>(c, a). truthy (is_initial (st1 ! a))) tbl1))"
      by force
    ultimately show ?thesis by simp
  qed
  have P: "truthy (is_initial (st3 ! a)) = (c = c0)" if ca: "(c, a) \<in> set tbl1" for c a
  proof (cases "c = c0")
    case True
    with ca have "(c0, a) \<in> set tbl1" by simp
    from map_of_is_SomeI [OF d this] m have "a = b" by simp
    with True show ?thesis by (simp add: i3 i2 truthy_def)
  next
    case False
    from F(2) ca have "code (st1 ! a) = c" by (auto simp: table_ok_def list_all_iff)
    with False cb have ab: "a \<noteq> b" by auto
    from only [OF ca] False have "\<not> truthy (is_initial (st1 ! a))" by auto
    with ab False show ?thesis by (simp add: i3 i2)
  qed
  have "filter (\<lambda>(c, a). truthy (is_initial (st3 ! a))) tbl1 = filter (\<lambda>(c, a). c = c0) tbl1"
    by (rule filter_cong [OF refl]) (auto simp: P)
  then have f: "map fst (filter (\<lambda>(c, a). truthy (is_initial (st3 ! a))) tbl1) = [c0]"
    using filter_key_single [OF d c0k] by simp
  from initials_for_codes(2) [OF r g] codes have "set (initial_set st tr) = {c0}" by simp
  with initial_set_distinct [of st tr] have "initial_set st tr = [c0]" by (rule distinct_singleton)
  with sb f show ?thesis by simp
qed

text \<open>
  C4. Building the table, for transitions whose references point to instances. The
  set of initial states is the set of the codes of the instances explicitly marked
  initial if there is one, and otherwise the set of the codes that are keys of
  \<open>transitions\<close> and never a destination (\<open>initial_set\<close>). The build raises
  \<open>ImproperlyConfigured\<close> exactly when two declarations of one code conflict or this
  set does not have exactly one element, and it raises nothing else. When it
  succeeds, the states of the table that are marked initial are those of this set.
\<close>

theorem states_build_initial_states:
  assumes r: "list_all (ref_ok st) (items tr)"
  shows "((\<exists>msg. fst (states_build tr st) = Some (ImproperlyConfigured msg)) =
            (merge_conflict st tr \<or> length (initial_set st tr) \<noteq> 1)) \<and>
         (fst (states_build tr st) = None \<or>
            (\<exists>msg. fst (states_build tr st) = Some (ImproperlyConfigured msg))) \<and>
         (fst (states_build tr st) = None \<longrightarrow>
            (case states_build tr st of
               (e, st', tbl) \<Rightarrow>
                 map fst (filter (\<lambda>(c, a). truthy (is_initial (st' ! a))) tbl) = initial_set st tr))"
proof -
  obtain r1 st1 tbl1 where g: "gather (items tr) st [] = (r1, st1, tbl1)"
    by (cases "gather (items tr) st []") auto
  note F = gather_items [OF r g]
  show ?thesis
  proof (cases r1)
    case (Some e)
    with F(4) obtain msg where e: "e = ImproperlyConfigured msg" by auto
    from g Some have "states_build tr st = (Some e, st1, tbl1)" by (simp add: states_build_failed)
    moreover from F(3) Some have "merge_conflict st tr" by simp
    ultimately show ?thesis by (simp add: e)
  next
    case None
    with g have g': "gather (items tr) st [] = (None, st1, tbl1)" by simp
    from F(3) None have nc: "\<not> merge_conflict st tr" by simp
    note len = initials_for_length [OF r g']
    show ?thesis
    proof (cases "length (initials_for st1 tbl1 tr) = 1")
      case False
      from states_build_count [OF g' False] False len nc show ?thesis by simp
    next
      case True
      from states_build_success [OF r g' True] obtain st3 where
        "states_build tr st = (None, st3, tbl1)"
        "map fst (filter (\<lambda>(c, a). truthy (is_initial (st3 ! a))) tbl1) = initial_set st tr"
        by blast
      with True len nc show ?thesis by simp
    qed
  qed
qed

theorem states_build_initial_states_witness:
  "initial_set tests_store tests_transitions = [0] \<and>
   \<not> merge_conflict tests_store tests_transitions \<and>
   fst (states_build tests_transitions tests_store) = None \<and>
   (case states_build tests_transitions tests_store of
      (e, st', tbl) \<Rightarrow>
        map fst (filter (\<lambda>(c, a). truthy (is_initial (st' ! a))) tbl) = [0])"
proof -
  have r: "list_all (ref_ok tests_store) (items tests_transitions)"
    by (simp add: items_def right_side_def tests_transitions_def tests_store_def ref_ok_def)
  have i: "initial_set tests_store tests_transitions = [0]"
    by code_simp
  have c: "\<not> merge_conflict tests_store tests_transitions"
    by code_simp
  from states_build_initial_states [OF r] i c
  have "fst (states_build tests_transitions tests_store) = None" by auto
  with states_build_initial_states [OF r] i c show ?thesis by simp
qed

end
